theory Spec2Isabelle
  imports Main "HOL-Library.Word" "HOL-Library.Monad_Syntax"
begin

section \<open>The linked node base (intrusive\_tree.h, intrusive\_tree.cpp)\<close>

text \<open>
  Every \<^verbatim>\<open>base_tree_element\<close> object of the program is one cell of a store. An object
  is either the sentinel \<^verbatim>\<open>root\<close> of the tree with a given tag inside the bimap object
  with a given identity, or the \<^verbatim>\<open>tree_element<Tag>\<close> base of the \<^verbatim>\<open>node_t\<close> at a given
  address. A pointer is a reference or \<^verbatim>\<open>nullptr\<close>.

  A computation returns \<open>None\<close> where the C++ program has no defined result: it
  dereferences \<^verbatim>\<open>nullptr\<close>, casts a sentinel to a node, or loops forever on a cyclic
  structure.
\<close>

datatype tag = left_tag | right_tag

fun Other :: "tag \<Rightarrow> tag" where
  "Other left_tag = right_tag"
| "Other right_tag = left_tag"

datatype ref = Root tag nat | Elt tag nat

type_synonym ptr = "ref option"

abbreviation nullptr :: ptr where
  "nullptr \<equiv> None"

record base_tree_element =
  left :: ptr
  right :: ptr
  parent :: ptr

type_synonym cells = "ref \<Rightarrow> base_tree_element"

text \<open>The default constructor: all three references null.\<close>

definition detached :: base_tree_element where
  "detached = \<lparr>left = nullptr, right = nullptr, parent = nullptr\<rparr>"

definition in_tree :: "cells \<Rightarrow> ref \<Rightarrow> bool" where
  "in_tree h this \<longleftrightarrow>
     \<not> (parent (h this) = nullptr \<and> left (h this) = nullptr \<and> right (h this) = nullptr)"

definition link_left :: "cells \<Rightarrow> ptr \<Rightarrow> ptr \<Rightarrow> cells" where
  "link_left h par l =
     (case par of
        None \<Rightarrow> h
      | Some p \<Rightarrow>
          (let h1 = h(p := (h p)\<lparr>left := l\<rparr>) in
           case l of
             None \<Rightarrow> h1
           | Some c \<Rightarrow> h1(c := (h1 c)\<lparr>parent := Some p\<rparr>)))"

definition link_right :: "cells \<Rightarrow> ptr \<Rightarrow> ptr \<Rightarrow> cells" where
  "link_right h par r =
     (case par of
        None \<Rightarrow> h
      | Some p \<Rightarrow>
          (let h1 = h(p := (h p)\<lparr>right := r\<rparr>) in
           case r of
             None \<Rightarrow> h1
           | Some c \<Rightarrow> h1(c := (h1 c)\<lparr>parent := Some p\<rparr>)))"

text \<open>\<^verbatim>\<open>move_from\<close>, used for sentinels only.\<close>

definition move_from :: "cells \<Rightarrow> ref \<Rightarrow> ref \<Rightarrow> cells" where
  "move_from h this other =
     (let h1 = link_left h (Some this) (left (h other));
          h2 = link_right h1 (Some this) (right (h1 other))
      in h2(other := detached))"

partial_function (option) min_in_subtree :: "cells \<Rightarrow> ref \<Rightarrow> ref option" where
  "min_in_subtree h p =
     (case left (h p) of None \<Rightarrow> Some p | Some q \<Rightarrow> min_in_subtree h q)"

declare min_in_subtree.simps [code]

definition is_leaf :: "cells \<Rightarrow> ref \<Rightarrow> bool" where
  "is_leaf h this \<longleftrightarrow> left (h this) = nullptr \<and> right (h this) = nullptr"

definition has_one_child :: "cells \<Rightarrow> ref \<Rightarrow> bool" where
  "has_one_child h this \<longleftrightarrow>
     (left (h this) \<noteq> nullptr \<and> right (h this) = nullptr) \<or>
     (left (h this) = nullptr \<and> right (h this) \<noteq> nullptr)"

text \<open>\<^verbatim>\<open>parent->left == this\<close> reads through the parent pointer.\<close>

definition is_left_child :: "cells \<Rightarrow> ref \<Rightarrow> bool option" where
  "is_left_child h this =
     (case parent (h this) of
        None \<Rightarrow> None
      | Some q \<Rightarrow> Some (left (h q) = Some this))"

definition get_only_child :: "cells \<Rightarrow> ref \<Rightarrow> ptr" where
  "get_only_child h this = (if left (h this) \<noteq> nullptr then left (h this) else right (h this))"

definition link_with_parent :: "cells \<Rightarrow> ref \<Rightarrow> ptr \<Rightarrow> cells option" where
  "link_with_parent h this node =
     do {
       b \<leftarrow> is_left_child h this;
       Some (if b then link_left h (parent (h this)) node
             else link_right h (parent (h this)) node)
     }"

text \<open>
  \<^verbatim>\<open>next\<close> (here \<open>next_elt\<close>) and its loop, which climbs while the node is not a left
  child. The pointer returned by the final \<^verbatim>\<open>p = p->parent\<close> is not null, since
  \<^verbatim>\<open>is_left_child\<close> has just read through it.
\<close>

partial_function (option) next_climb :: "cells \<Rightarrow> ref \<Rightarrow> ref option" where
  "next_climb h p =
     do {
       b \<leftarrow> is_left_child h p;
       if \<not> b then (case parent (h p) of None \<Rightarrow> None | Some q \<Rightarrow> next_climb h q)
       else Some p
     }"

declare next_climb.simps [code]

definition next_elt :: "cells \<Rightarrow> ref \<Rightarrow> ref option" where
  "next_elt h p =
     (case right (h p) of
        Some r \<Rightarrow> min_in_subtree h r
      | None \<Rightarrow> do { q \<leftarrow> next_climb h p; parent (h q) })"

partial_function (option) unlink :: "cells \<Rightarrow> ref \<Rightarrow> cells option" where
  "unlink h this =
     (if \<not> in_tree h this then Some h
      else if is_leaf h this \<or> has_one_child h this
        then link_with_parent h this (get_only_child h this)
      else
        do {
          n \<leftarrow> next_elt h this;
          h1 \<leftarrow> unlink h n;
          let h2 = link_left h1 (Some n) (left (h1 this));
          let h3 = link_right h2 (Some n) (right (h2 this));
          h4 \<leftarrow> link_with_parent h3 this (Some n);
          Some (h4(this := detached))
        })"

declare unlink.simps [code]

section \<open>The per-side ordered tree\<close>

text \<open>
  An \<^verbatim>\<open>intr_tree\<close> is given by its comparator, the key projection \<^verbatim>\<open>get_key\<close> (undefined on
  anything that is not a node of the tree's tag) and the reference of its sentinel.
  An \<^verbatim>\<open>intr_tree::iterator\<close> is its \<^verbatim>\<open>ptr\<close> member. The members \<^verbatim>\<open>find\<close>, \<^verbatim>\<open>insert\<close>, \<^verbatim>\<open>empty\<close>,
  \<^verbatim>\<open>begin\<close>, \<^verbatim>\<open>end\<close>, \<^verbatim>\<open>clear\<close> and \<^verbatim>\<open>as_iterator\<close> carry the prefix \<open>tree_\<close>.
\<close>

definition tree_empty :: "cells \<Rightarrow> ref \<Rightarrow> bool" where
  "tree_empty h root \<longleftrightarrow> left (h root) = nullptr \<and> right (h root) = nullptr"

definition tree_end :: "ref \<Rightarrow> ptr" where
  "tree_end root = Some root"

definition tree_begin :: "cells \<Rightarrow> ref \<Rightarrow> ptr option" where
  "tree_begin h root = map_option Some (min_in_subtree h root)"

text \<open>\<^verbatim>\<open>operator++\<close> of the tree iterator.\<close>

definition iter_inc :: "cells \<Rightarrow> ptr \<Rightarrow> ptr option" where
  "iter_inc h i = (case i of None \<Rightarrow> None | Some p \<Rightarrow> map_option Some (next_elt h p))"

partial_function (option) find_loop ::
  "('k \<Rightarrow> 'k \<Rightarrow> bool) \<Rightarrow> (ref \<Rightarrow> 'k option) \<Rightarrow> cells \<Rightarrow> ref \<Rightarrow> ptr \<Rightarrow> 'k \<Rightarrow> ptr option" where
  "find_loop cmp get_key h root cur key =
     (case cur of
        None \<Rightarrow> Some (tree_end root)
      | Some c \<Rightarrow>
          do {
            k \<leftarrow> get_key c;
            if cmp k key then find_loop cmp get_key h root (right (h c)) key
            else if cmp key k then find_loop cmp get_key h root (left (h c)) key
            else Some (Some c)
          })"

declare find_loop.simps [code]

definition tree_find ::
  "('k \<Rightarrow> 'k \<Rightarrow> bool) \<Rightarrow> (ref \<Rightarrow> 'k option) \<Rightarrow> cells \<Rightarrow> ref \<Rightarrow> 'k \<Rightarrow> ptr option" where
  "tree_find cmp get_key h root key = find_loop cmp get_key h root (left (h root)) key"

partial_function (option) insert_loop ::
  "('k \<Rightarrow> 'k \<Rightarrow> bool) \<Rightarrow> (ref \<Rightarrow> 'k option) \<Rightarrow> cells \<Rightarrow> ref \<Rightarrow> ref \<Rightarrow> ref \<Rightarrow> (ptr \<times> cells) option" where
  "insert_loop cmp get_key h root cur elt_p =
     do {
       kc \<leftarrow> get_key cur;
       ke \<leftarrow> get_key elt_p;
       if cmp kc ke then
         (case right (h cur) of
            Some c \<Rightarrow> insert_loop cmp get_key h root c elt_p
          | None \<Rightarrow> Some (Some elt_p, link_right h (Some cur) (Some elt_p)))
       else if cmp ke kc then
         (case left (h cur) of
            Some c \<Rightarrow> insert_loop cmp get_key h root c elt_p
          | None \<Rightarrow> Some (Some elt_p, link_left h (Some cur) (Some elt_p)))
       else Some (tree_end root, h)
     }"

declare insert_loop.simps [code]

text \<open>On an empty tree the iterator returned is \<^verbatim>\<open>iterator(cur)\<close> with \<^verbatim>\<open>cur == nullptr\<close>.\<close>

definition tree_insert ::
  "('k \<Rightarrow> 'k \<Rightarrow> bool) \<Rightarrow> (ref \<Rightarrow> 'k option) \<Rightarrow> cells \<Rightarrow> ref \<Rightarrow> ref \<Rightarrow> (ptr \<times> cells) option" where
  "tree_insert cmp get_key h root elt_p =
     (case left (h root) of
        None \<Rightarrow> Some (nullptr, link_left h (Some root) (Some elt_p))
      | Some cur \<Rightarrow> insert_loop cmp get_key h root cur elt_p)"

partial_function (option) delete_subtree :: "cells \<Rightarrow> ptr \<Rightarrow> cells option" where
  "delete_subtree h p =
     (case p of
        None \<Rightarrow> Some h
      | Some q \<Rightarrow>
          do {
            h1 \<leftarrow> delete_subtree h (left (h q));
            h2 \<leftarrow> delete_subtree h1 (right (h1 q));
            unlink h2 q
          })"

declare delete_subtree.simps [code]

definition tree_clear :: "cells \<Rightarrow> ref \<Rightarrow> cells option" where
  "tree_clear h root = delete_subtree h (Some root)"

text \<open>Move construction and move assignment of a tree (of its sentinel).\<close>

definition tree_move_construct :: "cells \<Rightarrow> ref \<Rightarrow> ref \<Rightarrow> cells" where
  "tree_move_construct h root other_root = move_from (h(root := detached)) root other_root"

definition tree_move_assign :: "cells \<Rightarrow> ref \<Rightarrow> ref \<Rightarrow> cells option" where
  "tree_move_assign h root other_root =
     do { h1 \<leftarrow> tree_clear h root; Some (move_from h1 root other_root) }"

text \<open>
  The loop \<^verbatim>\<open>for (it = begin(); it != end(); ++it)\<close>, collecting the positions visited.
\<close>

partial_function (option) traverse_from :: "cells \<Rightarrow> ref \<Rightarrow> ref \<Rightarrow> ref list option" where
  "traverse_from h root p =
     (if p = root then Some []
      else do { q \<leftarrow> next_elt h p; rest \<leftarrow> traverse_from h root q; Some (p # rest) })"

declare traverse_from.simps [code]

definition traverse :: "cells \<Rightarrow> ref \<Rightarrow> ref list option" where
  "traverse h root = do { b \<leftarrow> min_in_subtree h root; traverse_from h root b }"

section \<open>The bidirectional map (bimap.h)\<close>

text \<open>
  The template arguments of \<^verbatim>\<open>bimap<Left, Right, CompareLeft, CompareRight>\<close>: the two
  comparators (taken as stateless, as \<^verbatim>\<open>std::less\<close> is) and the values \<^verbatim>\<open>Left()\<close> and
  \<^verbatim>\<open>Right()\<close> of the default constructors.
\<close>

text \<open>
  Names: the member \<^verbatim>\<open>size_\<close> is \<open>size'\<close> and \<^verbatim>\<open>insert_\<close> is \<open>insert'\<close>; \<^verbatim>\<open>size\<close>, \<^verbatim>\<open>empty\<close>,
  \<^verbatim>\<open>begin<Side>\<close> and \<^verbatim>\<open>end<Side>\<close> carry the prefix \<open>bimap_\<close>; the overload
  \<^verbatim>\<open>erase<Side>(iterator)\<close> is \<open>erase\<close>, \<^verbatim>\<open>erase<Side>(key)\<close> is \<open>erase_left_key\<close> and
  \<open>erase_right_key\<close>, \<^verbatim>\<open>erase<Side>(first, last)\<close> is \<open>erase_range\<close>. A template over
  \<^verbatim>\<open>Side\<close> whose type does not depend on the key type takes the tag as an argument;
  the others are written out for \<^verbatim>\<open>left_tag\<close> and for \<^verbatim>\<open>right_tag\<close>.
\<close>

record ('l, 'r) bimap_t =
  CompareLeft :: "'l \<Rightarrow> 'l \<Rightarrow> bool"
  CompareRight :: "'r \<Rightarrow> 'r \<Rightarrow> bool"
  Left_default :: 'l
  Right_default :: 'r

text \<open>
  The store: the linkage cells, the pair \<^verbatim>\<open>lr\<close> of every \<^verbatim>\<open>node_t\<close>, the member
  \<^verbatim>\<open>size_\<close> of every bimap object (a \<^verbatim>\<open>size_t\<close>, taken as 64 bits wide), and the
  next address that \<^verbatim>\<open>new\<close> hands out.
\<close>

record ('l, 'r) store =
  cells :: cells
  lr :: "nat \<Rightarrow> 'l \<times> 'r"
  size' :: "nat \<Rightarrow> 64 word"
  heap_top :: nat

record base_iterator =
  it :: ptr
  map_p :: nat

datatype error = out_of_range

text \<open>
  \<^verbatim>\<open>operator->\<close> of a tree iterator: the cast of the pointer to the \<^verbatim>\<open>node_t\<close> whose base
  with this tag it points to.
\<close>

definition node_of :: "tag \<Rightarrow> ptr \<Rightarrow> nat option" where
  "node_of tg i =
     (case i of
        None \<Rightarrow> None
      | Some (Root tg' m) \<Rightarrow> None
      | Some (Elt tg' a) \<Rightarrow> if tg' = tg then Some a else None)"

definition tree_as_iterator :: "tag \<Rightarrow> nat \<Rightarrow> ptr" where
  "tree_as_iterator tg a = Some (Elt tg a)"

text \<open>\<^verbatim>\<open>get_key\<close> of the left and of the right tree.\<close>

definition get_key_left :: "('l, 'r) store \<Rightarrow> ref \<Rightarrow> 'l option" where
  "get_key_left s p = map_option (\<lambda>a. fst (lr s a)) (node_of left_tag (Some p))"

definition get_key_right :: "('l, 'r) store \<Rightarrow> ref \<Rightarrow> 'r option" where
  "get_key_right s p = map_option (\<lambda>a. snd (lr s a)) (node_of right_tag (Some p))"

text \<open>\<^verbatim>\<open>operator*\<close> of a left and of a right iterator.\<close>

definition deref_left :: "('l, 'r) store \<Rightarrow> base_iterator \<Rightarrow> 'l option" where
  "deref_left s i = map_option (\<lambda>a. fst (lr s a)) (node_of left_tag (it i))"

definition deref_right :: "('l, 'r) store \<Rightarrow> base_iterator \<Rightarrow> 'r option" where
  "deref_right s i = map_option (\<lambda>a. snd (lr s a)) (node_of right_tag (it i))"

definition iter_eq :: "base_iterator \<Rightarrow> base_iterator \<Rightarrow> bool" where
  "iter_eq a b \<longleftrightarrow> it a = it b"

definition bimap_end :: "tag \<Rightarrow> nat \<Rightarrow> base_iterator" where
  "bimap_end side this = \<lparr>it = tree_end (Root side this), map_p = this\<rparr>"

definition bimap_begin :: "tag \<Rightarrow> nat \<Rightarrow> ('l, 'r) store \<Rightarrow> base_iterator option" where
  "bimap_begin side this s =
     map_option (\<lambda>i. \<lparr>it = i, map_p = this\<rparr>) (tree_begin (cells s) (Root side this))"

definition end_left :: "nat \<Rightarrow> base_iterator" where
  "end_left this = bimap_end left_tag this"

definition end_right :: "nat \<Rightarrow> base_iterator" where
  "end_right this = bimap_end right_tag this"

definition flip :: "tag \<Rightarrow> base_iterator \<Rightarrow> base_iterator option" where
  "flip side i =
     (if it i = tree_end (Root side (map_p i))
      then Some \<lparr>it = tree_end (Root (Other side) (map_p i)), map_p = map_p i\<rparr>
      else do {
        a \<leftarrow> node_of side (it i);
        Some \<lparr>it = tree_as_iterator (Other side) a, map_p = map_p i\<rparr>
      })"

definition bimap_empty :: "nat \<Rightarrow> ('l, 'r) store \<Rightarrow> bool" where
  "bimap_empty this s = tree_empty (cells s) (Root left_tag this)"

definition bimap_size :: "nat \<Rightarrow> ('l, 'r) store \<Rightarrow> 64 word" where
  "bimap_size this s = size' s this"

definition find_left :: "('l, 'r) bimap_t \<Rightarrow> nat \<Rightarrow> 'l \<Rightarrow> ('l, 'r) store \<Rightarrow> base_iterator option" where
  "find_left T this key s =
     map_option (\<lambda>i. \<lparr>it = i, map_p = this\<rparr>)
       (tree_find (CompareLeft T) (get_key_left s) (cells s) (Root left_tag this) key)"

definition find_right :: "('l, 'r) bimap_t \<Rightarrow> nat \<Rightarrow> 'r \<Rightarrow> ('l, 'r) store \<Rightarrow> base_iterator option" where
  "find_right T this key s =
     map_option (\<lambda>i. \<lparr>it = i, map_p = this\<rparr>)
       (tree_find (CompareRight T) (get_key_right s) (cells s) (Root right_tag this) key)"

text \<open>\<^verbatim>\<open>at<left_tag>\<close> and \<^verbatim>\<open>at<right_tag>\<close>; the exception is the result \<open>Inl out_of_range\<close>.\<close>

definition at_left :: "('l, 'r) bimap_t \<Rightarrow> nat \<Rightarrow> 'l \<Rightarrow> ('l, 'r) store \<Rightarrow> (error + 'r) option" where
  "at_left T this key s =
     do {
       i \<leftarrow> find_left T this key s;
       if iter_eq i (bimap_end left_tag this) then Some (Inl out_of_range)
       else do { f \<leftarrow> flip left_tag i; v \<leftarrow> deref_right s f; Some (Inr v) }
     }"

definition at_right :: "('l, 'r) bimap_t \<Rightarrow> nat \<Rightarrow> 'r \<Rightarrow> ('l, 'r) store \<Rightarrow> (error + 'l) option" where
  "at_right T this key s =
     do {
       i \<leftarrow> find_right T this key s;
       if iter_eq i (bimap_end right_tag this) then Some (Inl out_of_range)
       else do { f \<leftarrow> flip right_tag i; v \<leftarrow> deref_left s f; Some (Inr v) }
     }"

text \<open>
  \<^verbatim>\<open>new node_t(left, right)\<close>: both linkage bases are default-constructed, the pair is
  stored.
\<close>

definition new_node :: "'l \<Rightarrow> 'r \<Rightarrow> ('l, 'r) store \<Rightarrow> nat \<times> ('l, 'r) store" where
  "new_node l r s =
     (let a = heap_top s in
      (a, s\<lparr>cells := (cells s)(Elt left_tag a := detached, Elt right_tag a := detached),
             lr := (lr s)(a := (l, r)),
             heap_top := Suc a\<rparr>))"

definition insert_no_check ::
  "('l, 'r) bimap_t \<Rightarrow> nat \<Rightarrow> 'l \<Rightarrow> 'r \<Rightarrow> ('l, 'r) store \<Rightarrow> (base_iterator \<times> ('l, 'r) store) option" where
  "insert_no_check T this l r s =
     (let s1 = s\<lparr>size' := (size' s)(this := size' s this + 1)\<rparr>;
          (node, s2) = new_node l r s1
      in do {
        (_, h1) \<leftarrow> tree_insert (CompareLeft T) (get_key_left s2) (cells s2)
                     (Root left_tag this) (Elt left_tag node);
        (_, h2) \<leftarrow> tree_insert (CompareRight T) (get_key_right s2) h1
                     (Root right_tag this) (Elt right_tag node);
        Some (\<lparr>it = tree_as_iterator left_tag node, map_p = this\<rparr>, s2\<lparr>cells := h2\<rparr>)
      })"

definition insert' ::
  "('l, 'r) bimap_t \<Rightarrow> nat \<Rightarrow> 'l \<Rightarrow> 'r \<Rightarrow> ('l, 'r) store \<Rightarrow> (base_iterator \<times> ('l, 'r) store) option" where
  "insert' T this l r s =
     do {
       fl \<leftarrow> find_left T this l s;
       if \<not> iter_eq fl (end_left this) then Some (end_left this, s)
       else do {
         fr \<leftarrow> find_right T this r s;
         if \<not> iter_eq fr (end_right this) then Some (end_left this, s)
         else insert_no_check T this l r s
       }
     }"

text \<open>
  \<^verbatim>\<open>delete node\<close>: the destructors of the two bases run in the reverse order of their
  declaration, each calling \<^verbatim>\<open>unlink\<close>.
\<close>

definition delete_node :: "nat \<Rightarrow> ('l, 'r) store \<Rightarrow> ('l, 'r) store option" where
  "delete_node node s =
     do {
       h1 \<leftarrow> unlink (cells s) (Elt right_tag node);
       h2 \<leftarrow> unlink h1 (Elt left_tag node);
       Some (s\<lparr>cells := h2\<rparr>)
     }"

text \<open>\<^verbatim>\<open>erase<Side>(iterator<Side>)\<close>.\<close>

definition erase ::
  "tag \<Rightarrow> nat \<Rightarrow> base_iterator \<Rightarrow> ('l, 'r) store \<Rightarrow> (base_iterator \<times> ('l, 'r) store) option" where
  "erase side this i s =
     (if iter_eq i (bimap_end side this) then Some (i, s)
      else
        (let s1 = s\<lparr>size' := (size' s)(this := size' s this - 1)\<rparr> in
         do {
           node \<leftarrow> node_of side (it i);
           nxt \<leftarrow> iter_inc (cells s1) (it i);
           s2 \<leftarrow> delete_node node s1;
           Some (\<lparr>it = nxt, map_p = map_p i\<rparr>, s2)
         }))"

text \<open>\<^verbatim>\<open>erase<left_tag>(key)\<close> and \<^verbatim>\<open>erase<right_tag>(key)\<close>.\<close>

definition erase_left_key ::
  "('l, 'r) bimap_t \<Rightarrow> nat \<Rightarrow> 'l \<Rightarrow> ('l, 'r) store \<Rightarrow> (bool \<times> ('l, 'r) store) option" where
  "erase_left_key T this key s =
     do {
       f \<leftarrow> find_left T this key s;
       (erase_res, s') \<leftarrow> erase left_tag this f s;
       Some (if \<not> bimap_empty this s' then \<not> iter_eq erase_res (bimap_end left_tag this)
             else iter_eq erase_res (bimap_end left_tag this), s')
     }"

definition erase_right_key ::
  "('l, 'r) bimap_t \<Rightarrow> nat \<Rightarrow> 'r \<Rightarrow> ('l, 'r) store \<Rightarrow> (bool \<times> ('l, 'r) store) option" where
  "erase_right_key T this key s =
     do {
       f \<leftarrow> find_right T this key s;
       (erase_res, s') \<leftarrow> erase right_tag this f s;
       Some (if \<not> bimap_empty this s' then \<not> iter_eq erase_res (bimap_end right_tag this)
             else iter_eq erase_res (bimap_end right_tag this), s')
     }"

text \<open>\<^verbatim>\<open>erase<Side>(first, last)\<close>.\<close>

partial_function (option) erase_range ::
  "tag \<Rightarrow> nat \<Rightarrow> base_iterator \<Rightarrow> base_iterator \<Rightarrow> ('l, 'r) store \<Rightarrow> (base_iterator \<times> ('l, 'r) store) option" where
  "erase_range side this i last_it s =
     (if \<not> iter_eq i last_it
      then do { (i', s') \<leftarrow> erase side this i s; erase_range side this i' last_it s' }
      else Some (i, s))"

declare erase_range.simps [code]

definition clear :: "nat \<Rightarrow> ('l, 'r) store \<Rightarrow> ('l, 'r) store option" where
  "clear this s =
     do {
       b \<leftarrow> bimap_begin left_tag this s;
       (_, s') \<leftarrow> erase_range left_tag this b (bimap_end left_tag this) s;
       Some s'
     }"

text \<open>The constructors and the move assignment; \<open>this\<close> is the object constructed.\<close>

definition bimap_construct :: "nat \<Rightarrow> ('l, 'r) store \<Rightarrow> ('l, 'r) store" where
  "bimap_construct this s =
     s\<lparr>cells := (cells s)(Root left_tag this := detached, Root right_tag this := detached),
       size' := (size' s)(this := 0)\<rparr>"

definition move_construct :: "nat \<Rightarrow> nat \<Rightarrow> ('l, 'r) store \<Rightarrow> ('l, 'r) store" where
  "move_construct this other s =
     (let h1 = tree_move_construct (cells s) (Root left_tag this) (Root left_tag other);
          h2 = tree_move_construct h1 (Root right_tag this) (Root right_tag other)
      in s\<lparr>cells := h2, size' := (size' s)(this := size' s other)\<rparr>)"

definition move_assign :: "nat \<Rightarrow> nat \<Rightarrow> ('l, 'r) store \<Rightarrow> ('l, 'r) store option" where
  "move_assign this other s =
     (if this \<noteq> other then
        do {
          s1 \<leftarrow> clear this s;
          h1 \<leftarrow> tree_move_assign (cells s1) (Root left_tag this) (Root left_tag other);
          h2 \<leftarrow> tree_move_assign h1 (Root right_tag this) (Root right_tag other);
          Some (s1\<lparr>cells := h2, size' := (size' s1)(this := size' s1 other)\<rparr>)
        }
      else Some s)"

text \<open>\<^verbatim>\<open>at_or_default<left_tag>\<close> and \<^verbatim>\<open>at_or_default<right_tag>\<close>.\<close>

definition at_left_or_default ::
  "('l, 'r) bimap_t \<Rightarrow> nat \<Rightarrow> 'l \<Rightarrow> ('l, 'r) store \<Rightarrow> ('r \<times> ('l, 'r) store) option" where
  "at_left_or_default T this key s =
     do {
       it_side \<leftarrow> find_left T this key s;
       if \<not> iter_eq it_side (bimap_end left_tag this)
       then do { f \<leftarrow> flip left_tag it_side; v \<leftarrow> deref_right s f; Some (v, s) }
       else
         (let other = Right_default T in
          do {
            it_other \<leftarrow> find_right T this other s;
            if \<not> iter_eq it_other (bimap_end right_tag this)
            then do {
              a \<leftarrow> node_of right_tag (it it_other);
              let s' = s\<lparr>lr := (lr s)(a := (key, snd (lr s a)))\<rparr>;
              v \<leftarrow> deref_right s' it_other;
              Some (v, s')
            }
            else do {
              (i, s') \<leftarrow> insert_no_check T this key other s;
              f \<leftarrow> flip left_tag i;
              v \<leftarrow> deref_right s' f;
              Some (v, s')
            }
          })
     }"

definition at_right_or_default ::
  "('l, 'r) bimap_t \<Rightarrow> nat \<Rightarrow> 'r \<Rightarrow> ('l, 'r) store \<Rightarrow> ('l \<times> ('l, 'r) store) option" where
  "at_right_or_default T this key s =
     do {
       it_side \<leftarrow> find_right T this key s;
       if \<not> iter_eq it_side (bimap_end right_tag this)
       then do { f \<leftarrow> flip right_tag it_side; v \<leftarrow> deref_left s f; Some (v, s) }
       else
         (let other = Left_default T in
          do {
            it_other \<leftarrow> find_left T this other s;
            if \<not> iter_eq it_other (bimap_end left_tag this)
            then do {
              a \<leftarrow> node_of left_tag (it it_other);
              let s' = s\<lparr>lr := (lr s)(a := (fst (lr s a), key))\<rparr>;
              v \<leftarrow> deref_left s' it_other;
              Some (v, s')
            }
            else do {
              (i, s') \<leftarrow> insert_no_check T this other key s;
              v \<leftarrow> deref_left s' i;
              Some (v, s')
            }
          })
     }"

section \<open>Abstraction of the linked structure, invariants and example inputs\<close>

text \<open>
  The shape of a tree of linked nodes: the addresses of its nodes, arranged as their
  child references arrange them. \<open>inorder\<close> lists them from left to right.
\<close>

datatype shape = Tip | Fork shape nat shape

fun inorder :: "shape \<Rightarrow> nat list" where
  "inorder Tip = []"
| "inorder (Fork l a r) = inorder l @ a # inorder r"

text \<open>
  \<open>subtree tg h par p t\<close>: in the cells \<open>h\<close> the pointer \<open>p\<close> is the root of a tree of
  nodes with the tag \<open>tg\<close> that has the shape \<open>t\<close>, every node refers back to its parent,
  and the parent of the root is \<open>par\<close>.
\<close>

fun subtree :: "tag \<Rightarrow> cells \<Rightarrow> ref \<Rightarrow> ptr \<Rightarrow> shape \<Rightarrow> bool" where
  "subtree tg h par p Tip \<longleftrightarrow> p = nullptr"
| "subtree tg h par p (Fork l a r) \<longleftrightarrow>
     p = Some (Elt tg a) \<and> parent (h (Elt tg a)) = Some par \<and>
     subtree tg h (Elt tg a) (left (h (Elt tg a))) l \<and>
     subtree tg h (Elt tg a) (right (h (Elt tg a))) r"

text \<open>
  The tree of the bimap \<open>this\<close> with the tag \<open>tg\<close> has the shape \<open>t\<close>: it hangs from the
  left child of the sentinel, the right child of the sentinel is unused, and no node
  occurs twice.
\<close>

definition tree_inv :: "tag \<Rightarrow> cells \<Rightarrow> nat \<Rightarrow> shape \<Rightarrow> bool" where
  "tree_inv tg h this t \<longleftrightarrow>
     subtree tg h (Root tg this) (left (h (Root tg this))) t \<and>
     right (h (Root tg this)) = nullptr \<and> distinct (inorder t)"

text \<open>
  The comparator contract: a strict weak ordering; two keys are equivalent when neither
  is less than the other.
\<close>

definition key_equiv :: "('k \<Rightarrow> 'k \<Rightarrow> bool) \<Rightarrow> 'k \<Rightarrow> 'k \<Rightarrow> bool" where
  "key_equiv cmp a b \<longleftrightarrow> \<not> cmp a b \<and> \<not> cmp b a"

definition strict_weak_order :: "('k \<Rightarrow> 'k \<Rightarrow> bool) \<Rightarrow> bool" where
  "strict_weak_order cmp \<longleftrightarrow>
     (\<forall>a. \<not> cmp a a) \<and>
     (\<forall>a b c. cmp a b \<longrightarrow> cmp b c \<longrightarrow> cmp a c) \<and>
     (\<forall>a b c. key_equiv cmp a b \<longrightarrow> key_equiv cmp b c \<longrightarrow> key_equiv cmp a c)"

text \<open>The shape after \<^verbatim>\<open>intr_tree::insert\<close> has linked the node \<open>a\<close>, whose key is \<open>k a\<close>.\<close>

fun shape_ins :: "('k \<Rightarrow> 'k \<Rightarrow> bool) \<Rightarrow> (nat \<Rightarrow> 'k) \<Rightarrow> nat \<Rightarrow> shape \<Rightarrow> shape" where
  "shape_ins cmp k a Tip = Fork Tip a Tip"
| "shape_ins cmp k a (Fork l b r) =
     (if cmp (k b) (k a) then Fork l b (shape_ins cmp k a r)
      else if cmp (k a) (k b) then Fork (shape_ins cmp k a l) b r
      else Fork l b r)"

text \<open>
  The position that follows the node \<open>x\<close> in the traversal of a tree of shape \<open>t\<close>;
  \<open>d\<close> is the position that follows the last node of \<open>t\<close>.
\<close>

fun succ_of :: "tag \<Rightarrow> shape \<Rightarrow> nat \<Rightarrow> ref \<Rightarrow> ref" where
  "succ_of tg Tip x d = d"
| "succ_of tg (Fork l a r) x d =
     (if x = a then (case inorder r of [] \<Rightarrow> d | y # ys \<Rightarrow> Elt tg y)
      else if x \<in> set (inorder l) then succ_of tg l x (Elt tg a)
      else succ_of tg r x d)"

text \<open>
  The shape after \<^verbatim>\<open>unlink\<close> of the node \<open>x\<close>: a node with at most one child is replaced by
  that child, a node with two children by its successor, the least node of its right
  subtree, which is first unlinked from its own place.
\<close>

fun shape_remove :: "nat \<Rightarrow> shape \<Rightarrow> shape" where
  "shape_remove x Tip = Tip"
| "shape_remove x (Fork l a r) =
     (if x = a then
        (if l = Tip then r
         else if r = Tip then l
         else Fork l (hd (inorder r)) (shape_remove (hd (inorder r)) r))
      else if x \<in> set (inorder l) then Fork (shape_remove x l) a r
      else Fork l a (shape_remove x r))"

text \<open>The left or the right child reference of a node.\<close>

definition child :: "bool \<Rightarrow> cells \<Rightarrow> ref \<Rightarrow> ptr" where
  "child lc h q = (if lc then left (h q) else right (h q))"

text \<open>
  The invariant of the bimap \<open>this\<close>, with the shapes of its two trees: both trees are
  well linked, they hold the same nodes, every node has been allocated, and the left
  (right) keys are strictly increasing along the traversal of the left (right) tree
  under a comparator that is a strict weak ordering.
\<close>

definition bimap_inv :: "('l, 'r) bimap_t \<Rightarrow> nat \<Rightarrow> ('l, 'r) store \<Rightarrow> shape \<Rightarrow> shape \<Rightarrow> bool" where
  "bimap_inv T this s lt rt \<longleftrightarrow>
     tree_inv left_tag (cells s) this lt \<and> tree_inv right_tag (cells s) this rt \<and>
     set (inorder lt) = set (inorder rt) \<and>
     (\<forall>a\<in>set (inorder lt). a < heap_top s) \<and>
     sorted_wrt (CompareLeft T) (map (\<lambda>a. fst (lr s a)) (inorder lt)) \<and>
     sorted_wrt (CompareRight T) (map (\<lambda>a. snd (lr s a)) (inorder rt)) \<and>
     strict_weak_order (CompareLeft T) \<and> strict_weak_order (CompareRight T)"

text \<open>
  Example inputs: \<^verbatim>\<open>bimap<int, int>\<close> with \<^verbatim>\<open>std::less<int>\<close> on both sides, the bimap 0
  default-constructed in a store with nothing else in it, and the maps that
  \<^verbatim>\<open>insert\<close> builds from it.
\<close>

definition int_bimap :: "(int, int) bimap_t" where
  "int_bimap = \<lparr>CompareLeft = (<), CompareRight = (<), Left_default = 0, Right_default = 0\<rparr>"

definition raw_store :: "(int, int) store" where
  "raw_store = \<lparr>cells = (\<lambda>p. detached), lr = (\<lambda>a. (0, 0)), size' = (\<lambda>m. 0), heap_top = 0\<rparr>"

definition empty_map :: "(int, int) store" where
  "empty_map = bimap_construct 0 raw_store"

definition after_insert ::
  "('l, 'r) bimap_t \<Rightarrow> nat \<Rightarrow> 'l \<Rightarrow> 'r \<Rightarrow> ('l, 'r) store \<Rightarrow> ('l, 'r) store" where
  "after_insert T this l r s = (case insert' T this l r s of None \<Rightarrow> s | Some (i, s') \<Rightarrow> s')"

definition two_entries :: "(int, int) store" where
  "two_entries = after_insert int_bimap 0 2 10 (after_insert int_bimap 0 1 20 empty_map)"

definition three_entries :: "(int, int) store" where
  "three_entries =
     after_insert int_bimap 0 3 3 (after_insert int_bimap 0 1 1 (after_insert int_bimap 0 2 2 empty_map))"

text \<open>
  The left (right) keys met by the loop from \<^verbatim>\<open>begin_left\<close> to \<^verbatim>\<open>end_left\<close>
  (\<^verbatim>\<open>begin_right\<close> to \<^verbatim>\<open>end_right\<close>).
\<close>

definition left_keys :: "('l, 'r) store \<Rightarrow> nat \<Rightarrow> 'l list option" where
  "left_keys s this =
     do { ps \<leftarrow> traverse (cells s) (Root left_tag this); those (map (get_key_left s) ps) }"

definition right_keys :: "('l, 'r) store \<Rightarrow> nat \<Rightarrow> 'r list option" where
  "right_keys s this =
     do { ps \<leftarrow> traverse (cells s) (Root right_tag this); those (map (get_key_right s) ps) }"

text \<open>
  A sequence of calls of \<^verbatim>\<open>insert\<close>, \<^verbatim>\<open>erase_left(key)\<close> and \<^verbatim>\<open>erase_right(key)\<close> on one
  bimap, results discarded.
\<close>

datatype ('l, 'r) call = Insert 'l 'r | Erase_left 'l | Erase_right 'r

fun do_call :: "('l, 'r) bimap_t \<Rightarrow> nat \<Rightarrow> ('l, 'r) call \<Rightarrow> ('l, 'r) store \<Rightarrow> ('l, 'r) store option" where
  "do_call T this (Insert l r) s = map_option snd (insert' T this l r s)"
| "do_call T this (Erase_left k) s = map_option snd (erase_left_key T this k s)"
| "do_call T this (Erase_right k) s = map_option snd (erase_right_key T this k s)"

fun do_calls :: "('l, 'r) bimap_t \<Rightarrow> nat \<Rightarrow> ('l, 'r) call list \<Rightarrow> ('l, 'r) store \<Rightarrow> ('l, 'r) store option" where
  "do_calls T this [] s = Some s"
| "do_calls T this (c # cs) s = do_call T this c s \<bind> do_calls T this cs"

section \<open>Properties\<close>

subsection \<open>Strict weak orderings\<close>

lemma swo_irrefl: "strict_weak_order cmp \<Longrightarrow> \<not> cmp a a"
  by (simp add: strict_weak_order_def)

lemma swo_trans: "strict_weak_order cmp \<Longrightarrow> cmp a b \<Longrightarrow> cmp b c \<Longrightarrow> cmp a c"
  unfolding strict_weak_order_def by blast

lemma swo_asym: "strict_weak_order cmp \<Longrightarrow> cmp a b \<Longrightarrow> \<not> cmp b a"
  using swo_irrefl swo_trans by metis

lemma swo_less_equiv:
  assumes "strict_weak_order cmp" "cmp a b" "key_equiv cmp b c"
  shows "cmp a c"
proof (rule ccontr)
  assume n: "\<not> cmp a c"
  have "\<not> cmp c a"
  proof
    assume "cmp c a"
    then have "cmp c b" using assms(1,2) swo_trans by metis
    then show False using assms(3) by (simp add: key_equiv_def)
  qed
  with n have "key_equiv cmp a c" by (simp add: key_equiv_def)
  moreover have "key_equiv cmp c b" using assms(3) by (simp add: key_equiv_def)
  ultimately have "key_equiv cmp a b" using assms(1) unfolding strict_weak_order_def by blast
  then show False using assms(2) by (simp add: key_equiv_def)
qed

lemma swo_equiv_less:
  assumes "strict_weak_order cmp" "key_equiv cmp a b" "cmp b c"
  shows "cmp a c"
proof (rule ccontr)
  assume n: "\<not> cmp a c"
  have "\<not> cmp c a"
  proof
    assume "cmp c a"
    then have "cmp b a" using assms(1,3) swo_trans by metis
    then show False using assms(2) by (simp add: key_equiv_def)
  qed
  with n have "key_equiv cmp c a" by (simp add: key_equiv_def)
  then have "key_equiv cmp c b" using assms(1,2) unfolding strict_weak_order_def by blast
  then show False using assms(3) by (simp add: key_equiv_def)
qed

subsection \<open>\<^verbatim>\<open>find\<close> on a well-linked tree\<close>

lemma subtree_cong:
  "(\<And>x. x \<in> set (inorder t) \<Longrightarrow> h' (Elt tg x) = h (Elt tg x)) \<Longrightarrow>
   subtree tg h' par p t = subtree tg h par p t"
  by (induction t arbitrary: par p) auto

lemma find_loop_present:
  assumes swo: "strict_weak_order cmp"
  shows "subtree tg h par cur t \<Longrightarrow> \<forall>x. gk (Elt tg x) = Some (k x) \<Longrightarrow>
    sorted_wrt cmp (map k (inorder t)) \<Longrightarrow> a \<in> set (inorder t) \<Longrightarrow> key_equiv cmp (k a) key \<Longrightarrow>
    find_loop cmp gk h root cur key = Some (Some (Elt tg a))"
proof (induction t arbitrary: par cur)
  case Tip
  then show ?case by simp
next
  case (Fork l b r)
  let ?p = "Elt tg b"
  from Fork.prems(1) have cur: "cur = Some ?p"
    and sl: "subtree tg h ?p (left (h ?p)) l" and sr: "subtree tg h ?p (right (h ?p)) r"
    by simp_all
  have gb: "gk ?p = Some (k b)" using Fork.prems(2) by simp
  from Fork.prems(3) have ol: "sorted_wrt cmp (map k (inorder l))"
    and or: "sorted_wrt cmp (map k (inorder r))"
    and lb: "\<And>x. x \<in> set (inorder l) \<Longrightarrow> cmp (k x) (k b)"
    and br: "\<And>x. x \<in> set (inorder r) \<Longrightarrow> cmp (k b) (k x)"
    by (auto simp: sorted_wrt_append)
  have eq': "key_equiv cmp key (k a)" using Fork.prems(5) by (simp add: key_equiv_def)
  consider "a = b" | "a \<in> set (inorder l)" | "a \<in> set (inorder r)"
    using Fork.prems(4) by auto
  then show ?case
  proof cases
    case 1
    with Fork.prems(5) have "\<not> cmp (k b) key" "\<not> cmp key (k b)" by (simp_all add: key_equiv_def)
    then show ?thesis using cur gb 1 by (subst find_loop.simps) simp
  next
    case 2
    have "cmp key (k b)" using swo_equiv_less [OF swo eq' lb [OF 2]] .
    moreover from this have "\<not> cmp (k b) key" using swo_asym [OF swo] by blast
    moreover have "find_loop cmp gk h root (left (h ?p)) key = Some (Some (Elt tg a))"
      using Fork.IH(1) [OF sl Fork.prems(2) ol 2 Fork.prems(5)] .
    ultimately show ?thesis using cur gb by (subst find_loop.simps) simp
  next
    case 3
    have "cmp (k b) key" using swo_less_equiv [OF swo br [OF 3] Fork.prems(5)] .
    moreover have "find_loop cmp gk h root (right (h ?p)) key = Some (Some (Elt tg a))"
      using Fork.IH(2) [OF sr Fork.prems(2) or 3 Fork.prems(5)] .
    ultimately show ?thesis using cur gb by (subst find_loop.simps) simp
  qed
qed

lemma find_loop_absent:
  "subtree tg h par cur t \<Longrightarrow> \<forall>x. gk (Elt tg x) = Some (k x) \<Longrightarrow>
    \<forall>x\<in>set (inorder t). \<not> key_equiv cmp (k x) key \<Longrightarrow>
    find_loop cmp gk h root cur key = Some (tree_end root)"
proof (induction t arbitrary: par cur)
  case Tip
  then show ?case by (subst find_loop.simps) simp
next
  case (Fork l b r)
  let ?p = "Elt tg b"
  from Fork.prems(1) have cur: "cur = Some ?p"
    and sl: "subtree tg h ?p (left (h ?p)) l" and sr: "subtree tg h ?p (right (h ?p)) r"
    by simp_all
  have gb: "gk ?p = Some (k b)" using Fork.prems(2) by simp
  have il: "find_loop cmp gk h root (left (h ?p)) key = Some (tree_end root)"
    using Fork.IH(1) [OF sl] Fork.prems(2,3) by simp
  have ir: "find_loop cmp gk h root (right (h ?p)) key = Some (tree_end root)"
    using Fork.IH(2) [OF sr] Fork.prems(2,3) by simp
  have "cmp (k b) key \<or> cmp key (k b)" using Fork.prems(3) by (auto simp: key_equiv_def)
  then show ?case using cur gb il ir by (subst find_loop.simps) auto
qed

subsection \<open>\<^verbatim>\<open>insert\<close> on a well-linked tree\<close>

lemma set_shape_ins:
  "\<forall>x\<in>set (inorder t). \<not> key_equiv cmp (k x) (k a) \<Longrightarrow>
   set (inorder (shape_ins cmp k a t)) = insert a (set (inorder t))"
  by (induction t) (auto simp: key_equiv_def)

lemma distinct_shape_ins:
  "\<forall>x\<in>set (inorder t). \<not> key_equiv cmp (k x) (k a) \<Longrightarrow> a \<notin> set (inorder t) \<Longrightarrow>
   distinct (inorder t) \<Longrightarrow> distinct (inorder (shape_ins cmp k a t))"
  by (induction t) (auto simp: set_shape_ins key_equiv_def)

lemma sorted_shape_ins:
  assumes swo: "strict_weak_order cmp"
  shows "\<forall>x\<in>set (inorder t). \<not> key_equiv cmp (k x) (k a) \<Longrightarrow>
   sorted_wrt cmp (map k (inorder t)) \<Longrightarrow> sorted_wrt cmp (map k (inorder (shape_ins cmp k a t)))"
proof (induction t)
  case Tip
  then show ?case by simp
next
  case (Fork l b r)
  from Fork.prems(2) have ol: "sorted_wrt cmp (map k (inorder l))"
    and or: "sorted_wrt cmp (map k (inorder r))"
    and lb: "\<And>x. x \<in> set (inorder l) \<Longrightarrow> cmp (k x) (k b)"
    and br: "\<And>x. x \<in> set (inorder r) \<Longrightarrow> cmp (k b) (k x)"
    and lr: "\<And>x y. x \<in> set (inorder l) \<Longrightarrow> y \<in> set (inorder r) \<Longrightarrow> cmp (k x) (k y)"
    by (auto simp: sorted_wrt_append)
  have nl: "\<forall>x\<in>set (inorder l). \<not> key_equiv cmp (k x) (k a)"
    and nr: "\<forall>x\<in>set (inorder r). \<not> key_equiv cmp (k x) (k a)"
    using Fork.prems(1) by auto
  have nb: "cmp (k b) (k a) \<or> cmp (k a) (k b)"
    using Fork.prems(1) by (auto simp: key_equiv_def)
  show ?case
  proof (cases "cmp (k b) (k a)")
    case True
    have "sorted_wrt cmp (map k (inorder (shape_ins cmp k a r)))" using Fork.IH(2) [OF nr or] .
    moreover have "\<And>x. x \<in> set (inorder l) \<Longrightarrow> cmp (k x) (k a)"
      using swo_trans [OF swo lb True] .
    ultimately show ?thesis using True ol lb br lr
      by (auto simp: sorted_wrt_append set_shape_ins [OF nr])
  next
    case False
    with nb have ab: "cmp (k a) (k b)" by simp
    have "sorted_wrt cmp (map k (inorder (shape_ins cmp k a l)))" using Fork.IH(1) [OF nl ol] .
    moreover have "\<And>y. y \<in> set (inorder r) \<Longrightarrow> cmp (k a) (k y)"
      using swo_trans [OF swo ab br] .
    ultimately show ?thesis using False ab or lb br lr
      by (auto simp: sorted_wrt_append set_shape_ins [OF nl])
  qed
qed

lemma frame_elt:
  "\<forall>p. p \<notin> Elt tg ` A \<longrightarrow> h' p = h p \<Longrightarrow> x \<notin> A \<Longrightarrow> h' (Elt tg x) = h (Elt tg x)"
  by auto

lemma insert_loop_shape:
  "subtree tg h par (Some cur) t \<Longrightarrow>
   distinct (inorder t) \<Longrightarrow> a \<notin> set (inorder t) \<Longrightarrow>
   \<forall>x. gk (Elt tg x) = Some (k x) \<Longrightarrow>
   \<forall>x\<in>set (inorder t). \<not> key_equiv cmp (k x) (k a) \<Longrightarrow>
   left (h (Elt tg a)) = nullptr \<Longrightarrow> right (h (Elt tg a)) = nullptr \<Longrightarrow>
   \<exists>h'. insert_loop cmp gk h root cur (Elt tg a) = Some (Some (Elt tg a), h') \<and>
        subtree tg h' par (Some cur) (shape_ins cmp k a t) \<and>
        (\<forall>p. p \<notin> Elt tg ` insert a (set (inorder t)) \<longrightarrow> h' p = h p)"
proof (induction t arbitrary: par cur)
  case Tip
  then show ?case by simp
next
  case (Fork l b r)
  let ?b = "Elt tg b" and ?a = "Elt tg a"
  from Fork.prems(1) have cur: "cur = ?b" and pb: "parent (h ?b) = Some par"
    and sl: "subtree tg h ?b (left (h ?b)) l" and sr: "subtree tg h ?b (right (h ?b)) r"
    by simp_all
  from Fork.prems(2) have dl: "distinct (inorder l)" and dr: "distinct (inorder r)"
    and bl: "b \<notin> set (inorder l)" and br: "b \<notin> set (inorder r)"
    and disj: "\<And>x. x \<in> set (inorder l) \<Longrightarrow> x \<notin> set (inorder r)"
    by auto
  from Fork.prems(3) have ab: "a \<noteq> b" and al: "a \<notin> set (inorder l)" and ar: "a \<notin> set (inorder r)"
    by auto
  have gb: "gk ?b = Some (k b)" and ga: "gk ?a = Some (k a)" using Fork.prems(4) by simp_all
  have nb: "cmp (k b) (k a) \<or> cmp (k a) (k b)"
    using Fork.prems(5) by (auto simp: key_equiv_def)
  show ?case
  proof (cases "cmp (k b) (k a)")
    case True
    show ?thesis
    proof (cases "right (h ?b)")
      case None
      with sr have r: "r = Tip" by (cases r) auto
      let ?h' = "link_right h (Some ?b) (Some ?a)"
      have run: "insert_loop cmp gk h root cur ?a = Some (Some ?a, ?h')"
        using cur gb ga True None by (subst insert_loop.simps) simp
      have hb: "?h' ?b = (h ?b)\<lparr>right := Some ?a\<rparr>" and ha: "?h' ?a = (h ?a)\<lparr>parent := Some ?b\<rparr>"
        and fr: "\<And>p. p \<noteq> ?a \<Longrightarrow> p \<noteq> ?b \<Longrightarrow> ?h' p = h p"
        using ab by (simp_all add: link_right_def Let_def)
      have "subtree tg ?h' ?b (left (h ?b)) l"
        using sl subtree_cong [of l ?h' tg h] fr al bl by (metis ref.inject(2))
      then have "subtree tg ?h' par (Some cur) (shape_ins cmp k a (Fork l b r))"
        using True r cur pb hb ha Fork.prems(6,7) by simp
      moreover have "\<forall>p. p \<notin> Elt tg ` insert a (set (inorder (Fork l b r))) \<longrightarrow> ?h' p = h p"
        using fr by auto
      ultimately show ?thesis using run by blast
    next
      case (Some c)
      have "\<exists>h'. insert_loop cmp gk h root c ?a = Some (Some ?a, h') \<and>
          subtree tg h' ?b (Some c) (shape_ins cmp k a r) \<and>
          (\<forall>p. p \<notin> Elt tg ` insert a (set (inorder r)) \<longrightarrow> h' p = h p)"
        using Fork.IH(2) [of ?b c] sr Some dr ar Fork.prems(4,5,6,7) by simp
      then obtain h' where run': "insert_loop cmp gk h root c ?a = Some (Some ?a, h')"
        and s': "subtree tg h' ?b (Some c) (shape_ins cmp k a r)"
        and fr: "\<forall>p. p \<notin> Elt tg ` insert a (set (inorder r)) \<longrightarrow> h' p = h p"
        by blast
      have run: "insert_loop cmp gk h root cur ?a = Some (Some ?a, h')"
        using cur gb ga True Some run' by (subst insert_loop.simps) simp
      have hb: "h' ?b = h ?b" using frame_elt [OF fr, of b] ab br by auto
      have "subtree tg h' ?b (left (h ?b)) l"
      proof -
        have "\<And>x. x \<in> set (inorder l) \<Longrightarrow> h' (Elt tg x) = h (Elt tg x)"
          using frame_elt [OF fr] al disj by (metis insert_iff)
        then show ?thesis using sl subtree_cong [of l h' tg h] by simp
      qed
      then have "subtree tg h' par (Some cur) (shape_ins cmp k a (Fork l b r))"
        using True cur pb hb s' Some by simp
      moreover have "\<forall>p. p \<notin> Elt tg ` insert a (set (inorder (Fork l b r))) \<longrightarrow> h' p = h p"
        using fr by auto
      ultimately show ?thesis using run by blast
    qed
  next
    case False
    with nb have lt: "cmp (k a) (k b)" by simp
    show ?thesis
    proof (cases "left (h ?b)")
      case None
      with sl have l: "l = Tip" by (cases l) auto
      let ?h' = "link_left h (Some ?b) (Some ?a)"
      have run: "insert_loop cmp gk h root cur ?a = Some (Some ?a, ?h')"
        using cur gb ga False lt None by (subst insert_loop.simps) simp
      have hb: "?h' ?b = (h ?b)\<lparr>left := Some ?a\<rparr>" and ha: "?h' ?a = (h ?a)\<lparr>parent := Some ?b\<rparr>"
        and fr: "\<And>p. p \<noteq> ?a \<Longrightarrow> p \<noteq> ?b \<Longrightarrow> ?h' p = h p"
        using ab by (simp_all add: link_left_def Let_def)
      have "subtree tg ?h' ?b (right (h ?b)) r"
        using sr subtree_cong [of r ?h' tg h] fr ar br by (metis ref.inject(2))
      then have "subtree tg ?h' par (Some cur) (shape_ins cmp k a (Fork l b r))"
        using False lt l cur pb hb ha Fork.prems(6,7) by simp
      moreover have "\<forall>p. p \<notin> Elt tg ` insert a (set (inorder (Fork l b r))) \<longrightarrow> ?h' p = h p"
        using fr by auto
      ultimately show ?thesis using run by blast
    next
      case (Some c)
      have "\<exists>h'. insert_loop cmp gk h root c ?a = Some (Some ?a, h') \<and>
          subtree tg h' ?b (Some c) (shape_ins cmp k a l) \<and>
          (\<forall>p. p \<notin> Elt tg ` insert a (set (inorder l)) \<longrightarrow> h' p = h p)"
        using Fork.IH(1) [of ?b c] sl Some dl al Fork.prems(4,5,6,7) by simp
      then obtain h' where run': "insert_loop cmp gk h root c ?a = Some (Some ?a, h')"
        and s': "subtree tg h' ?b (Some c) (shape_ins cmp k a l)"
        and fr: "\<forall>p. p \<notin> Elt tg ` insert a (set (inorder l)) \<longrightarrow> h' p = h p"
        by blast
      have run: "insert_loop cmp gk h root cur ?a = Some (Some ?a, h')"
        using cur gb ga False lt Some run' by (subst insert_loop.simps) simp
      have hb: "h' ?b = h ?b" using frame_elt [OF fr, of b] ab bl by auto
      have "subtree tg h' ?b (right (h ?b)) r"
      proof -
        have "\<And>x. x \<in> set (inorder r) \<Longrightarrow> h' (Elt tg x) = h (Elt tg x)"
          using frame_elt [OF fr] ar disj by (metis insert_iff)
        then show ?thesis using sr subtree_cong [of r h' tg h] by simp
      qed
      then have "subtree tg h' par (Some cur) (shape_ins cmp k a (Fork l b r))"
        using False lt cur pb hb s' Some by simp
      moreover have "\<forall>p. p \<notin> Elt tg ` insert a (set (inorder (Fork l b r))) \<longrightarrow> h' p = h p"
        using fr by auto
      ultimately show ?thesis using run by blast
    qed
  qed
qed

subsection \<open>\<^verbatim>\<open>next\<close> and the traversal\<close>

lemma inorder_Nil_iff: "inorder t = [] \<longleftrightarrow> t = Tip"
  by (cases t) simp_all

lemma subtree_Some:
  "subtree tg h par (Some p) t \<Longrightarrow> \<exists>l a r. t = Fork l a r \<and> p = Elt tg a"
  by (cases t) simp_all

lemma subtree_None: "subtree tg h par nullptr t \<longleftrightarrow> t = Tip"
  by (cases t) simp_all

lemma min_in_subtree_shape:
  "subtree tg h par (Some p) t \<Longrightarrow> min_in_subtree h p = Some (Elt tg (hd (inorder t)))"
proof (induction t arbitrary: par p)
  case Tip
  then show ?case by simp
next
  case (Fork l a r)
  then have p: "p = Elt tg a" and sl: "subtree tg h p (left (h p)) l" by simp_all
  show ?case
  proof (cases "left (h p)")
    case None
    with sl have "l = Tip" by (simp add: subtree_None)
    then show ?thesis using None p by (subst min_in_subtree.simps) simp
  next
    case (Some c)
    with sl have "l \<noteq> Tip" by auto
    then have "hd (inorder (Fork l a r)) = hd (inorder l)" by (simp add: inorder_Nil_iff)
    moreover have "min_in_subtree h c = Some (Elt tg (hd (inorder l)))"
      using Fork.IH(1) sl Some by simp
    ultimately show ?thesis using Some by (subst min_in_subtree.simps) simp
  qed
qed

lemma next_climb_left_child:
  "parent (h c) = Some q \<Longrightarrow> left (h q) = Some c \<Longrightarrow> next_climb h c = Some c"
  by (subst next_climb.simps) (simp add: is_left_child_def)

lemma next_climb_right_child:
  "parent (h c) = Some q \<Longrightarrow> left (h q) \<noteq> Some c \<Longrightarrow> next_climb h c = next_climb h q"
  by (subst next_climb.simps) (simp add: is_left_child_def)

lemma next_elt_succ:
  "subtree tg h par (Some p) t \<Longrightarrow> distinct (inorder t) \<Longrightarrow> x \<in> set (inorder t) \<Longrightarrow>
   (next_climb h p \<bind> (\<lambda>q. parent (h q))) = Some d \<Longrightarrow>
   next_elt h (Elt tg x) = Some (succ_of tg t x d)"
proof (induction t arbitrary: par p d)
  case Tip
  then show ?case by simp
next
  case (Fork l a r)
  let ?a = "Elt tg a"
  from Fork.prems(1) have p: "p = ?a"
    and sl: "subtree tg h ?a (left (h ?a)) l" and sr: "subtree tg h ?a (right (h ?a)) r"
    by simp_all
  from Fork.prems(2) have dl: "distinct (inorder l)" and dr: "distinct (inorder r)"
    and al: "a \<notin> set (inorder l)" and ar: "a \<notin> set (inorder r)"
    and disj: "\<And>y. y \<in> set (inorder l) \<Longrightarrow> y \<notin> set (inorder r)"
    by auto
  consider "x = a" | "x \<noteq> a" "x \<in> set (inorder l)" | "x \<noteq> a" "x \<notin> set (inorder l)" "x \<in> set (inorder r)"
    using Fork.prems(3) by auto
  then show ?case
  proof cases
    case 1
    show ?thesis
    proof (cases "right (h ?a)")
      case None
      with sr have "r = Tip" by (simp add: subtree_None)
      then show ?thesis using 1 None Fork.prems(4) p by (simp add: next_elt_def)
    next
      case (Some c)
      with sr have "r \<noteq> Tip" by auto
      then obtain y ys where yr: "inorder r = y # ys" by (cases "inorder r") (simp_all add: inorder_Nil_iff)
      have "min_in_subtree h c = Some (Elt tg (hd (inorder r)))"
        using min_in_subtree_shape [of tg h ?a c r] sr Some by simp
      then show ?thesis using 1 Some yr by (simp add: next_elt_def)
    qed
  next
    case 2
    then have "l \<noteq> Tip" by auto
    then obtain c where c: "left (h ?a) = Some c" using sl by (cases "left (h ?a)") (simp_all add: subtree_None)
    from sl c have pc: "parent (h c) = Some ?a" using subtree_Some [of tg h ?a c l] by auto
    have "next_climb h c = Some c" using next_climb_left_child [OF pc c] .
    then have "(next_climb h c \<bind> (\<lambda>q. parent (h q))) = Some ?a" using pc by simp
    then have "next_elt h (Elt tg x) = Some (succ_of tg l x ?a)"
      using Fork.IH(1) [of ?a c ?a] sl c dl 2 by simp
    then show ?thesis using 2 by simp
  next
    case 3
    then have "r \<noteq> Tip" by auto
    then obtain c where c: "right (h ?a) = Some c" using sr by (cases "right (h ?a)") (simp_all add: subtree_None)
    from sr c obtain y where y: "c = Elt tg y" "y \<in> set (inorder r)" and pc: "parent (h c) = Some ?a"
      using subtree_Some [of tg h ?a c r] by auto
    have nl: "left (h ?a) \<noteq> Some c"
    proof
      assume e: "left (h ?a) = Some c"
      with sl obtain z where "c = Elt tg z" "z \<in> set (inorder l)"
        using subtree_Some [of tg h ?a c l] by auto
      with y disj show False by auto
    qed
    have "next_climb h c = next_climb h ?a" using next_climb_right_child [OF pc nl] .
    then have "(next_climb h c \<bind> (\<lambda>q. parent (h q))) = Some d" using Fork.prems(4) p by simp
    then have "next_elt h (Elt tg x) = Some (succ_of tg r x d)"
      using Fork.IH(2) [of ?a c d] sr c dr 3 by simp
    then show ?thesis using 3 by simp
  qed
qed

lemma tree_inv_root_climb:
  assumes "tree_inv tg h this t" "left (h (Root tg this)) = Some c"
  shows "(next_climb h c \<bind> (\<lambda>q. parent (h q))) = Some (Root tg this)"
proof -
  from assms have "subtree tg h (Root tg this) (Some c) t" by (simp add: tree_inv_def)
  then have pc: "parent (h c) = Some (Root tg this)" by (cases t) simp_all
  show ?thesis using next_climb_left_child [OF pc assms(2)] pc by simp
qed

lemma next_elt_tree:
  assumes "tree_inv tg h this t" "x \<in> set (inorder t)"
  shows "next_elt h (Elt tg x) = Some (succ_of tg t x (Root tg this))"
proof -
  from assms(2) have "t \<noteq> Tip" by auto
  with assms(1) obtain c where c: "left (h (Root tg this)) = Some c"
    by (cases "left (h (Root tg this))") (simp_all add: tree_inv_def subtree_None)
  from assms(1) c have s: "subtree tg h (Root tg this) (Some c) t" and d: "distinct (inorder t)"
    by (simp_all add: tree_inv_def)
  show ?thesis using next_elt_succ [OF s d assms(2) tree_inv_root_climb [OF assms(1) c]] .
qed

text \<open>The successor in terms of the in-order list.\<close>

lemma distinct_split_unique:
  assumes "distinct (xs @ x # ys)" "xs @ x # ys = us @ x # vs"
  shows "xs = us \<and> ys = vs"
proof -
  have "x \<notin> set xs" "x \<notin> set ys" using assms(1) by auto
  from append_Cons_eq_iff [OF this] assms(2) show ?thesis by blast
qed

lemma succ_of_inorder:
  "distinct (inorder t) \<Longrightarrow> inorder t = xs @ x # ys \<Longrightarrow>
   succ_of tg t x d = (case ys of [] \<Rightarrow> d | y # zs \<Rightarrow> Elt tg y)"
proof (induction t arbitrary: xs ys d)
  case Tip
  then show ?case by simp
next
  case (Fork l a r)
  from Fork.prems(1) have dl: "distinct (inorder l)" and dr: "distinct (inorder r)"
    and al: "a \<notin> set (inorder l)" and ar: "a \<notin> set (inorder r)"
    and disj: "\<And>y. y \<in> set (inorder l) \<Longrightarrow> y \<notin> set (inorder r)"
    by auto
  have dx: "distinct (xs @ x # ys)" using Fork.prems(1) unfolding Fork.prems(2) .
  have xin: "x \<in> set (inorder (Fork l a r))" using Fork.prems(2) by simp
  then consider "x = a" | "x \<noteq> a" "x \<in> set (inorder l)" | "x \<noteq> a" "x \<notin> set (inorder l)" "x \<in> set (inorder r)"
    by auto
  then show ?case
  proof cases
    case 1
    have "xs @ x # ys = inorder l @ x # inorder r" using Fork.prems(2) 1 by simp
    then have "ys = inorder r" using distinct_split_unique [OF dx] by blast
    then show ?thesis using 1 by simp
  next
    case 2
    then obtain us vs where l: "inorder l = us @ x # vs" by (meson split_list)
    then have "xs @ x # ys = us @ x # (vs @ a # inorder r)" using Fork.prems(2) by simp
    then have ys: "ys = vs @ a # inorder r" using distinct_split_unique [OF dx] by blast
    have "succ_of tg l x (Elt tg a) = (case vs of [] \<Rightarrow> Elt tg a | y # zs \<Rightarrow> Elt tg y)"
      using Fork.IH(1) [OF dl l] .
    then show ?thesis using 2 ys by (cases vs) simp_all
  next
    case 3
    then obtain us vs where r: "inorder r = us @ x # vs" by (meson split_list)
    then have "xs @ x # ys = (inorder l @ a # us) @ x # vs" using Fork.prems(2) by simp
    then have ys: "ys = vs" using distinct_split_unique [OF dx] by blast
    have "succ_of tg r x d = (case vs of [] \<Rightarrow> d | y # zs \<Rightarrow> Elt tg y)"
      using Fork.IH(2) [OF dr r] .
    then show ?thesis using 3 ys by simp
  qed
qed

lemma traverse_from_suffix:
  assumes inv: "tree_inv tg h this t"
  shows "inorder t = xs @ ys \<Longrightarrow>
    traverse_from h (Root tg this) (case ys of [] \<Rightarrow> Root tg this | y # zs \<Rightarrow> Elt tg y) =
      Some (map (Elt tg) ys)"
proof (induction ys arbitrary: xs)
  case Nil
  then show ?case by (subst traverse_from.simps) simp
next
  case (Cons y ys)
  from inv have d: "distinct (inorder t)" by (simp add: tree_inv_def)
  have yin: "y \<in> set (inorder t)" using Cons.prems by simp
  have "next_elt h (Elt tg y) = Some (succ_of tg t y (Root tg this))"
    using next_elt_tree [OF inv yin] .
  also have "succ_of tg t y (Root tg this) = (case ys of [] \<Rightarrow> Root tg this | z # zs \<Rightarrow> Elt tg z)"
    using succ_of_inorder [OF d Cons.prems] .
  finally have n: "next_elt h (Elt tg y) = Some (case ys of [] \<Rightarrow> Root tg this | z # zs \<Rightarrow> Elt tg z)" .
  have "inorder t = (xs @ [y]) @ ys" using Cons.prems by simp
  from Cons.IH [OF this] n show ?case by (subst traverse_from.simps) simp
qed

lemma min_in_subtree_root:
  assumes "tree_inv tg h this t"
  shows "min_in_subtree h (Root tg this) =
    Some (case inorder t of [] \<Rightarrow> Root tg this | y # zs \<Rightarrow> Elt tg y)"
proof (cases "left (h (Root tg this))")
  case None
  with assms have "t = Tip" by (simp add: tree_inv_def subtree_None)
  then show ?thesis using None by (subst min_in_subtree.simps) simp
next
  case (Some c)
  with assms have s: "subtree tg h (Root tg this) (Some c) t" by (simp add: tree_inv_def)
  then have "t \<noteq> Tip" by auto
  then obtain y zs where "inorder t = y # zs" by (cases "inorder t") (simp_all add: inorder_Nil_iff)
  then show ?thesis using Some min_in_subtree_shape [OF s] by (subst min_in_subtree.simps) simp
qed

lemma traverse_tree:
  assumes "tree_inv tg h this t"
  shows "traverse h (Root tg this) = Some (map (Elt tg) (inorder t))"
  using min_in_subtree_root [OF assms] traverse_from_suffix [OF assms, of "[]" "inorder t"]
  by (simp add: traverse_def)

subsection \<open>\<^verbatim>\<open>unlink\<close> on a well-linked tree\<close>

lemma inorder_shape_remove:
  "distinct (inorder t) \<Longrightarrow> inorder (shape_remove x t) = remove1 x (inorder t)"
proof (induction t arbitrary: x)
  case Tip
  then show ?case by simp
next
  case (Fork l a r)
  from Fork.prems have dl: "distinct (inorder l)" and dr: "distinct (inorder r)"
    and al: "a \<notin> set (inorder l)" and ar: "a \<notin> set (inorder r)"
    and disj: "\<And>y. y \<in> set (inorder l) \<Longrightarrow> y \<notin> set (inorder r)"
    by auto
  consider "x = a" "l = Tip \<or> r = Tip" | "x = a" "l \<noteq> Tip" "r \<noteq> Tip"
    | "x \<noteq> a" "x \<in> set (inorder l)" | "x \<noteq> a" "x \<notin> set (inorder l)"
    by blast
  then show ?case
  proof cases
    case 1
    then show ?thesis using al by (auto simp: remove1_append)
  next
    case 2
    then obtain y ys where yr: "inorder r = y # ys"
      by (cases "inorder r") (simp_all add: inorder_Nil_iff)
    have "inorder (shape_remove y r) = remove1 y (inorder r)" using Fork.IH(2) [OF dr] .
    then show ?thesis using 2 yr al by (simp add: remove1_append)
  next
    case 3
    then show ?thesis using Fork.IH(1) [OF dl] by (simp add: remove1_append)
  next
    case 4
    then show ?thesis using Fork.IH(2) [OF dr] by (simp add: remove1_append)
  qed
qed

lemma set_shape_remove:
  "distinct (inorder t) \<Longrightarrow> set (inorder (shape_remove x t)) = set (inorder t) - {x}"
  by (simp add: inorder_shape_remove)

lemma distinct_shape_remove:
  "distinct (inorder t) \<Longrightarrow> distinct (inorder (shape_remove x t))"
  by (simp add: inorder_shape_remove)

lemma link_left_apply:
  "link_left h (Some p) c x =
     (if c = Some x then (if x = p then (h p)\<lparr>left := c\<rparr> else h x)\<lparr>parent := Some p\<rparr>
      else if x = p then (h p)\<lparr>left := c\<rparr> else h x)"
  by (cases c) (auto simp: link_left_def Let_def)

lemma link_right_apply:
  "link_right h (Some p) c x =
     (if c = Some x then (if x = p then (h p)\<lparr>right := c\<rparr> else h x)\<lparr>parent := Some p\<rparr>
      else if x = p then (h p)\<lparr>right := c\<rparr> else h x)"
  by (cases c) (auto simp: link_right_def Let_def)

lemma subtree_reparent:
  assumes "subtree tg h par c t" "distinct (inorder t)"
    and "\<forall>x\<in>set (inorder t). c \<noteq> Some (Elt tg x) \<longrightarrow> h' (Elt tg x) = h (Elt tg x)"
    and "\<forall>r. c = Some r \<longrightarrow> h' r = (h r)\<lparr>parent := Some par'\<rparr>"
  shows "subtree tg h' par' c t"
proof (cases t)
  case Tip
  then show ?thesis using assms(1) by simp
next
  case (Fork l a r)
  let ?a = "Elt tg a"
  from assms(1) Fork have c: "c = Some ?a"
    and sl: "subtree tg h ?a (left (h ?a)) l" and sr: "subtree tg h ?a (right (h ?a)) r"
    by simp_all
  have ha: "h' ?a = (h ?a)\<lparr>parent := Some par'\<rparr>" using assms(4) c by simp
  have "\<And>x. x \<in> set (inorder l) \<Longrightarrow> h' (Elt tg x) = h (Elt tg x)"
    using assms(2,3) Fork c by auto
  then have l: "subtree tg h' ?a (left (h ?a)) l" using sl subtree_cong [of l h' tg h] by simp
  have "\<And>x. x \<in> set (inorder r) \<Longrightarrow> h' (Elt tg x) = h (Elt tg x)"
    using assms(2,3) Fork c by auto
  then have r: "subtree tg h' ?a (right (h ?a)) r" using sr subtree_cong [of r h' tg h] by simp
  show ?thesis using Fork c ha l r by simp
qed

lemma subtree_root_mem:
  "subtree tg h par (Some c) t \<Longrightarrow> \<exists>y. c = Elt tg y \<and> y \<in> set (inorder t)"
  by (cases t) simp_all

lemma unlink_leaf_or_one_child:
  assumes par: "parent (h this) = Some q"
    and one: "left (h this) = nullptr \<or> right (h this) = nullptr"
  shows "unlink h this =
    Some (if left (h q) = Some this then link_left h (Some q) (get_only_child h this)
          else link_right h (Some q) (get_only_child h this))"
  using par one
  by (subst unlink.simps)
    (auto simp: in_tree_def is_leaf_def has_one_child_def link_with_parent_def is_left_child_def)

lemma unlink_two_children:
  assumes par: "parent (h this) = Some q"
    and two: "left (h this) \<noteq> nullptr" "right (h this) \<noteq> nullptr"
    and nxt: "next_elt h this = Some n"
    and rec: "unlink h n = Some h1"
    and par3: "parent (link_right (link_left h1 (Some n) (left (h1 this))) (Some n)
        (right (link_left h1 (Some n) (left (h1 this)) this)) this) = Some q'"
  shows "unlink h this =
    Some ((let h2 = link_left h1 (Some n) (left (h1 this));
               h3 = link_right h2 (Some n) (right (h2 this))
           in if left (h3 q') = Some this then link_left h3 (Some q') (Some n)
              else link_right h3 (Some q') (Some n))(this := detached))"
  using par two nxt rec par3
  by (subst unlink.simps)
    (auto simp: in_tree_def is_leaf_def has_one_child_def link_with_parent_def is_left_child_def Let_def)

lemma frame_elt2:
  "\<forall>p. p \<noteq> q \<and> p \<notin> Elt tg ` A \<longrightarrow> h' p = h p \<Longrightarrow> y \<noteq> a \<Longrightarrow> y \<notin> A \<Longrightarrow> q = Elt tg a \<Longrightarrow>
   h' (Elt tg y) = h (Elt tg y)"
  by auto

lemma child_cong: "h' q = h q \<Longrightarrow> child lc h' q = child lc h q"
  by (simp add: child_def)

lemma unlink_shape:
  "subtree tg h q (child lc h q) t \<Longrightarrow> distinct (inorder t) \<Longrightarrow> x \<in> set (inorder t) \<Longrightarrow>
   (\<not> lc \<longrightarrow> left (h q) \<noteq> right (h q)) \<Longrightarrow> q \<notin> Elt tg ` set (inorder t) \<Longrightarrow>
   \<exists>h'. unlink h (Elt tg x) = Some h' \<and>
        subtree tg h' q (child lc h' q) (shape_remove x t) \<and>
        (\<forall>p. p \<noteq> q \<and> p \<notin> Elt tg ` set (inorder t) \<longrightarrow> h' p = h p) \<and>
        parent (h' q) = parent (h q) \<and> child (\<not> lc) h' q = child (\<not> lc) h q"
proof (induction t arbitrary: q lc x)
  case Tip
  then show ?case by simp
next
  case (Fork l a r)
  let ?a = "Elt tg a"
  let ?t = "Fork l a r"
  from Fork.prems(1) have ca: "child lc h q = Some ?a" and pa: "parent (h ?a) = Some q"
    and sl: "subtree tg h ?a (left (h ?a)) l" and sr: "subtree tg h ?a (right (h ?a)) r"
    by simp_all
  from Fork.prems(2) have dl: "distinct (inorder l)" and dr: "distinct (inorder r)"
    and al: "a \<notin> set (inorder l)" and ar: "a \<notin> set (inorder r)"
    and disj: "\<And>y. y \<in> set (inorder l) \<Longrightarrow> y \<notin> set (inorder r)"
    by auto
  from Fork.prems(5) have qa: "q \<noteq> ?a" and ql: "q \<notin> Elt tg ` set (inorder l)"
    and qr: "q \<notin> Elt tg ` set (inorder r)"
    by auto
  have ilc: "left (h q) = Some ?a \<longleftrightarrow> lc"
    using ca Fork.prems(4) by (cases lc) (auto simp: child_def)
  have al': "?a \<notin> Elt tg ` set (inorder l)" and ar': "?a \<notin> Elt tg ` set (inorder r)"
    using al ar by auto
  have xin: "x = a \<or> x \<in> set (inorder l) \<or> x \<in> set (inorder r)"
    using Fork.prems(3) by auto
  consider (A) "x = a" "left (h ?a) = nullptr \<or> right (h ?a) = nullptr"
    | (B) "x = a" "left (h ?a) \<noteq> nullptr" "right (h ?a) \<noteq> nullptr"
    | (C) "x \<noteq> a" "x \<in> set (inorder l)"
    | (D) "x \<noteq> a" "x \<notin> set (inorder l)" "x \<in> set (inorder r)"
    using xin by blast
  then show ?case
  proof cases
    case A
    define c where "c = get_only_child h ?a"
    define t' where "t' = shape_remove x ?t"
    have lr_tip: "l = Tip \<or> r = Tip" using A(2) sl sr by (auto simp: subtree_None)
    have sc: "subtree tg h ?a c t'" and sub: "set (inorder t') \<subseteq> set (inorder l) \<union> set (inorder r)"
      and dt': "distinct (inorder t')"
    proof -
      show "subtree tg h ?a c t'"
      proof (cases "left (h ?a)")
        case None
        with sl have "l = Tip" by (simp add: subtree_None)
        then show ?thesis using None sr A(1) by (simp add: c_def t'_def get_only_child_def)
      next
        case (Some cl)
        with A(2) have rn: "right (h ?a) = nullptr" by simp
        with sr have "r = Tip" by (simp add: subtree_None)
        moreover from Some sl have "l \<noteq> Tip" by auto
        ultimately show ?thesis using Some sl A(1) by (simp add: c_def t'_def get_only_child_def)
      qed
      show "set (inorder t') \<subseteq> set (inorder l) \<union> set (inorder r)"
        using A(1) lr_tip by (auto simp: t'_def)
      show "distinct (inorder t')" using A(1) dl dr lr_tip by (auto simp: t'_def)
    qed
    define h' where "h' = (if lc then link_left h (Some q) c else link_right h (Some q) c)"
    have run: "unlink h (Elt tg x) = Some h'"
      using unlink_leaf_or_one_child [of h ?a q, OF pa A(2)] ilc A(1) by (auto simp: h'_def c_def)
    have cq: "c \<noteq> Some q"
    proof
      assume "c = Some q"
      with sc obtain y where "q = Elt tg y" "y \<in> set (inorder t')"
        using subtree_root_mem by blast
      with sub ql qr show False by auto
    qed
    have hq: "parent (h' q) = parent (h q)" "child lc h' q = c" "child (\<not> lc) h' q = child (\<not> lc) h q"
      using cq by (auto simp: h'_def link_left_apply link_right_apply child_def)
    have hc: "\<forall>r. c = Some r \<longrightarrow> h' r = (h r)\<lparr>parent := Some q\<rparr>"
      using cq by (auto simp: h'_def link_left_apply link_right_apply)
    have ho: "\<forall>p. p \<noteq> q \<and> c \<noteq> Some p \<longrightarrow> h' p = h p"
      by (auto simp: h'_def link_left_apply link_right_apply)
    have "\<forall>y\<in>set (inorder t'). c \<noteq> Some (Elt tg y) \<longrightarrow> h' (Elt tg y) = h (Elt tg y)"
    proof (intro ballI impI)
      fix y assume y: "y \<in> set (inorder t')" and yc: "c \<noteq> Some (Elt tg y)"
      from y sub have "y \<in> set (inorder l) \<union> set (inorder r)" by blast
      then have "Elt tg y \<noteq> q" using ql qr by blast
      then show "h' (Elt tg y) = h (Elt tg y)" using ho yc by simp
    qed
    from subtree_reparent [OF sc dt' this hc]
    have "subtree tg h' q (child lc h' q) (shape_remove x ?t)" using hq by (simp add: t'_def)
    moreover have "\<forall>p. p \<noteq> q \<and> p \<notin> Elt tg ` set (inorder ?t) \<longrightarrow> h' p = h p"
    proof (intro allI impI)
      fix p assume p: "p \<noteq> q \<and> p \<notin> Elt tg ` set (inorder ?t)"
      have "c \<noteq> Some p"
      proof
        assume "c = Some p"
        with sc obtain y where "p = Elt tg y" "y \<in> set (inorder t')"
          using subtree_root_mem by blast
        with sub p show False by auto
      qed
      with ho p show "h' p = h p" by simp
    qed
    ultimately show ?thesis using run hq by blast
  next
    case B
    then obtain cl cr where cl: "left (h ?a) = Some cl" and cr: "right (h ?a) = Some cr" by auto
    from sl cl obtain la where la: "cl = Elt tg la" "la \<in> set (inorder l)"
      using subtree_root_mem by fastforce
    from sr cr have rne: "r \<noteq> Tip" by auto
    from sl cl have lne: "l \<noteq> Tip" by auto
    define n where "n = hd (inorder r)"
    let ?n = "Elt tg n"
    have nr: "n \<in> set (inorder r)" using rne by (simp add: n_def inorder_Nil_iff)
    have nxt: "next_elt h ?a = Some ?n"
      using min_in_subtree_shape [of tg h ?a cr r] sr cr by (simp add: next_elt_def n_def)
    have "\<exists>h'. unlink h ?n = Some h' \<and>
        subtree tg h' ?a (child False h' ?a) (shape_remove n r) \<and>
        (\<forall>p. p \<noteq> ?a \<and> p \<notin> Elt tg ` set (inorder r) \<longrightarrow> h' p = h p) \<and>
        parent (h' ?a) = parent (h ?a) \<and> child (\<not> False) h' ?a = child (\<not> False) h ?a"
    proof (rule Fork.IH(2) [of ?a False n])
      show "subtree tg h ?a (child False h ?a) r" using sr by (simp add: child_def)
      show "distinct (inorder r)" by (rule dr)
      show "n \<in> set (inorder r)" by (rule nr)
      show "\<not> False \<longrightarrow> left (h ?a) \<noteq> right (h ?a)"
      proof -
        from sr cr obtain ra where "cr = Elt tg ra" "ra \<in> set (inorder r)"
          using subtree_root_mem by fastforce
        with la disj have "cl \<noteq> cr" by auto
        then show ?thesis using cl cr by simp
      qed
      show "?a \<notin> Elt tg ` set (inorder r)" by (rule ar')
    qed
    then obtain h1 where rec: "unlink h ?n = Some h1"
      and s1: "subtree tg h1 ?a (right (h1 ?a)) (shape_remove n r)"
      and fr1: "\<forall>p. p \<noteq> ?a \<and> p \<notin> Elt tg ` set (inorder r) \<longrightarrow> h1 p = h p"
      and p1: "parent (h1 ?a) = Some q" and l1: "left (h1 ?a) = Some cl"
      using pa cl by (auto simp: child_def)
    define c where "c = right (h1 ?a)"
    define r' where "r' = shape_remove n r"
    have sr': "set (inorder r') = set (inorder r) - {n}" and dr': "distinct (inorder r')"
      using dr by (simp_all add: r'_def set_shape_remove distinct_shape_remove)
    define h2 where "h2 = link_left h1 (Some ?n) (Some cl)"
    define h3 where "h3 = link_right h2 (Some ?n) c"
    define h4 where "h4 = (if lc then link_left h3 (Some q) (Some ?n) else link_right h3 (Some q) (Some ?n))"
    define h5 where "h5 = h4(?a := detached)"
    have na: "?n \<noteq> ?a" using nr ar by auto
    have cla: "cl \<noteq> ?a" using la al by auto
    have cln: "cl \<noteq> ?n" using la nr disj by auto
    have qn: "q \<noteq> ?n" using qr nr by auto
    have qcl: "q \<noteq> cl" using ql la by auto
    have cmem: "\<And>cc. c = Some cc \<Longrightarrow> \<exists>y. cc = Elt tg y \<and> y \<in> set (inorder r) \<and> y \<noteq> n"
      using s1 subtree_root_mem [of tg h1 ?a _ r'] sr' by (auto simp: c_def r'_def)
    have ca': "c \<noteq> Some ?a" using cmem ar by auto
    have cn: "c \<noteq> Some ?n" using cmem by auto
    have ccl: "c \<noteq> Some cl" using cmem la disj by auto
    have cq: "c \<noteq> Some q" using cmem qr by auto
    note ne = na cla cln qa qn qcl ca' cn ccl cq
    have h1q: "h1 q = h q" using fr1 qa qr by simp
    have h1cl: "h1 cl = h cl" using frame_elt2 [OF fr1, of la a] la al disj by auto
    have r2: "right (h2 ?a) = c" using ne by (simp add: h2_def c_def link_left_apply)
    have p3: "parent (h3 ?a) = Some q"
      using ne p1 [symmetric] by (simp add: h3_def h2_def link_left_apply link_right_apply)
    have l3: "left (h3 q) = Some ?a \<longleftrightarrow> lc"
      using ne ilc h1q by (auto simp: h3_def h2_def link_left_apply link_right_apply)
    have run: "unlink h (Elt tg x) = Some h5"
      using unlink_two_children [of h ?a q ?n h1 q] pa cl cr nxt rec l1 r2 p3 l3 B(1)
      by (simp add: Let_def h5_def h4_def h3_def h2_def)
    have h5n: "left (h5 ?n) = Some cl" "right (h5 ?n) = c" "parent (h5 ?n) = Some q"
      using ne by (auto simp: h5_def h4_def h3_def h2_def link_left_apply link_right_apply)
    have h5cl: "h5 cl = (h cl)\<lparr>parent := Some ?n\<rparr>"
      using ne h1cl by (auto simp: h5_def h4_def h3_def h2_def link_left_apply link_right_apply)
    have h5c: "\<forall>cc. c = Some cc \<longrightarrow> h5 cc = (h1 cc)\<lparr>parent := Some ?n\<rparr>"
      using ne by (auto simp: h5_def h4_def h3_def h2_def link_left_apply link_right_apply)
    have h5o: "\<forall>p. p \<noteq> ?a \<and> p \<noteq> ?n \<and> p \<noteq> cl \<and> p \<noteq> q \<and> c \<noteq> Some p \<longrightarrow> h5 p = h1 p"
      by (auto simp: h5_def h4_def h3_def h2_def link_left_apply link_right_apply)
    have h5q: "parent (h5 q) = parent (h q)" "child lc h5 q = Some ?n"
      "child (\<not> lc) h5 q = child (\<not> lc) h q"
      using ne h1q
      by (auto simp: h5_def h4_def h3_def h2_def link_left_apply link_right_apply child_def)
    have left_ok: "subtree tg h5 ?n (Some cl) l"
    proof (rule subtree_reparent [of tg h ?a "Some cl" l h5 ?n])
      show "subtree tg h ?a (Some cl) l" using sl cl by simp
      show "distinct (inorder l)" by (rule dl)
      show "\<forall>y\<in>set (inorder l). Some cl \<noteq> Some (Elt tg y) \<longrightarrow> h5 (Elt tg y) = h (Elt tg y)"
      proof (intro ballI impI)
        fix y assume y: "y \<in> set (inorder l)" and yc: "Some cl \<noteq> Some (Elt tg y)"
        have "Elt tg y \<noteq> ?a" "Elt tg y \<noteq> ?n" "Elt tg y \<noteq> q" "c \<noteq> Some (Elt tg y)"
          using y al disj nr ql cmem by auto
        then have "h5 (Elt tg y) = h1 (Elt tg y)" using h5o yc by simp
        also have "\<dots> = h (Elt tg y)" using frame_elt2 [OF fr1, of y a] y al disj by auto
        finally show "h5 (Elt tg y) = h (Elt tg y)" .
      qed
      show "\<forall>r. Some cl = Some r \<longrightarrow> h5 r = (h r)\<lparr>parent := Some ?n\<rparr>" using h5cl by simp
    qed
    have right_ok: "subtree tg h5 ?n c r'"
    proof (rule subtree_reparent [of tg h1 ?a c r' h5 ?n])
      show "subtree tg h1 ?a c r'" using s1 by (simp add: c_def r'_def)
      show "distinct (inorder r')" by (rule dr')
      show "\<forall>y\<in>set (inorder r'). c \<noteq> Some (Elt tg y) \<longrightarrow> h5 (Elt tg y) = h1 (Elt tg y)"
      proof (intro ballI impI)
        fix y assume y: "y \<in> set (inorder r')" and yc: "c \<noteq> Some (Elt tg y)"
        have "Elt tg y \<noteq> ?a" "Elt tg y \<noteq> ?n" "Elt tg y \<noteq> q" "Elt tg y \<noteq> cl"
          using y sr' ar qr la disj by auto
        then show "h5 (Elt tg y) = h1 (Elt tg y)" using h5o yc by simp
      qed
      show "\<forall>r. c = Some r \<longrightarrow> h5 r = (h1 r)\<lparr>parent := Some ?n\<rparr>" by (rule h5c)
    qed
    have "shape_remove x ?t = Fork l n r'" using B(1) lne rne by (simp add: n_def r'_def)
    then have "subtree tg h5 q (child lc h5 q) (shape_remove x ?t)"
      using h5q h5n left_ok right_ok by simp
    moreover have "\<forall>p. p \<noteq> q \<and> p \<notin> Elt tg ` set (inorder ?t) \<longrightarrow> h5 p = h p"
    proof (intro allI impI)
      fix p assume p: "p \<noteq> q \<and> p \<notin> Elt tg ` set (inorder ?t)"
      then have "p \<noteq> ?a" "p \<noteq> ?n" "p \<noteq> cl" "c \<noteq> Some p" "p \<notin> Elt tg ` set (inorder r)"
        using nr la cmem by auto
      then show "h5 p = h p" using h5o fr1 p by simp
    qed
    ultimately show ?thesis using run h5q by blast
  next
    case C
    have "\<exists>h'. unlink h (Elt tg x) = Some h' \<and>
        subtree tg h' ?a (child True h' ?a) (shape_remove x l) \<and>
        (\<forall>p. p \<noteq> ?a \<and> p \<notin> Elt tg ` set (inorder l) \<longrightarrow> h' p = h p) \<and>
        parent (h' ?a) = parent (h ?a) \<and> child (\<not> True) h' ?a = child (\<not> True) h ?a"
    proof (rule Fork.IH(1) [of ?a True x])
      show "subtree tg h ?a (child True h ?a) l" using sl by (simp add: child_def)
      show "distinct (inorder l)" by (rule dl)
      show "x \<in> set (inorder l)" by (rule C(2))
      show "\<not> True \<longrightarrow> left (h ?a) \<noteq> right (h ?a)" by simp
      show "?a \<notin> Elt tg ` set (inorder l)" by (rule al')
    qed
    then obtain h' where run: "unlink h (Elt tg x) = Some h'"
      and s': "subtree tg h' ?a (left (h' ?a)) (shape_remove x l)"
      and fr: "\<forall>p. p \<noteq> ?a \<and> p \<notin> Elt tg ` set (inorder l) \<longrightarrow> h' p = h p"
      and p': "parent (h' ?a) = Some q" and r': "right (h' ?a) = right (h ?a)"
      using pa by (auto simp: child_def)
    have hq: "h' q = h q" using fr qa ql by simp
    have "\<And>y. y \<in> set (inorder r) \<Longrightarrow> h' (Elt tg y) = h (Elt tg y)"
    proof -
      fix y assume "y \<in> set (inorder r)"
      then have "y \<noteq> a" "y \<notin> set (inorder l)" using ar disj by auto
      then show "h' (Elt tg y) = h (Elt tg y)" using frame_elt2 [OF fr, of y a] by simp
    qed
    then have "subtree tg h' ?a (right (h ?a)) r" using sr subtree_cong [of r h' tg h] by simp
    moreover have "child lc h' q = Some ?a" using ca child_cong [of h' q h lc] hq by simp
    ultimately have "subtree tg h' q (child lc h' q) (shape_remove x ?t)"
      using C s' p' r' by simp
    moreover have "\<forall>p. p \<noteq> q \<and> p \<notin> Elt tg ` set (inorder ?t) \<longrightarrow> h' p = h p"
      using fr by auto
    ultimately show ?thesis using run hq by (auto simp: child_def)
  next
    case D
    have "\<exists>h'. unlink h (Elt tg x) = Some h' \<and>
        subtree tg h' ?a (child False h' ?a) (shape_remove x r) \<and>
        (\<forall>p. p \<noteq> ?a \<and> p \<notin> Elt tg ` set (inorder r) \<longrightarrow> h' p = h p) \<and>
        parent (h' ?a) = parent (h ?a) \<and> child (\<not> False) h' ?a = child (\<not> False) h ?a"
    proof (rule Fork.IH(2) [of ?a False x])
      show "subtree tg h ?a (child False h ?a) r" using sr by (simp add: child_def)
      show "distinct (inorder r)" by (rule dr)
      show "x \<in> set (inorder r)" by (rule D(3))
      show "\<not> False \<longrightarrow> left (h ?a) \<noteq> right (h ?a)"
      proof -
        from D(3) have "r \<noteq> Tip" by auto
        then obtain cr where cr: "right (h ?a) = Some cr"
          using sr by (cases "right (h ?a)") (simp_all add: subtree_None)
        with sr obtain ra where ra: "cr = Elt tg ra" "ra \<in> set (inorder r)"
          using subtree_root_mem by fastforce
        have "left (h ?a) \<noteq> Some cr"
        proof
          assume "left (h ?a) = Some cr"
          with sl obtain la where "cr = Elt tg la" "la \<in> set (inorder l)"
            using subtree_root_mem by fastforce
          with ra disj show False by auto
        qed
        then show ?thesis using cr by simp
      qed
      show "?a \<notin> Elt tg ` set (inorder r)" by (rule ar')
    qed
    then obtain h' where run: "unlink h (Elt tg x) = Some h'"
      and s': "subtree tg h' ?a (right (h' ?a)) (shape_remove x r)"
      and fr: "\<forall>p. p \<noteq> ?a \<and> p \<notin> Elt tg ` set (inorder r) \<longrightarrow> h' p = h p"
      and p': "parent (h' ?a) = Some q" and l': "left (h' ?a) = left (h ?a)"
      using pa by (auto simp: child_def)
    have hq: "h' q = h q" using fr qa qr by simp
    have "\<And>y. y \<in> set (inorder l) \<Longrightarrow> h' (Elt tg y) = h (Elt tg y)"
    proof -
      fix y assume "y \<in> set (inorder l)"
      then have "y \<noteq> a" "y \<notin> set (inorder r)" using al disj by auto
      then show "h' (Elt tg y) = h (Elt tg y)" using frame_elt2 [OF fr, of y a] by simp
    qed
    then have "subtree tg h' ?a (left (h ?a)) l" using sl subtree_cong [of l h' tg h] by simp
    moreover have "child lc h' q = Some ?a" using ca child_cong [of h' q h lc] hq by simp
    ultimately have "subtree tg h' q (child lc h' q) (shape_remove x ?t)"
      using D s' p' l' by simp
    moreover have "\<forall>p. p \<noteq> q \<and> p \<notin> Elt tg ` set (inorder ?t) \<longrightarrow> h' p = h p"
      using fr by auto
    ultimately show ?thesis using run hq by (auto simp: child_def)
  qed
qed

subsection \<open>The trees of a bimap\<close>

lemma tree_inv_cong:
  "tree_inv tg h this t \<Longrightarrow> h' (Root tg this) = h (Root tg this) \<Longrightarrow>
   \<forall>x\<in>set (inorder t). h' (Elt tg x) = h (Elt tg x) \<Longrightarrow> tree_inv tg h' this t"
  using subtree_cong [of t h' tg h] by (simp add: tree_inv_def)

lemma tree_inv_other_tag:
  assumes "tree_inv tg' h this t" "tg' \<noteq> tg"
    and "\<forall>p. p \<noteq> Root tg m \<and> p \<notin> Elt tg ` A \<longrightarrow> h' p = h p"
  shows "tree_inv tg' h' this t"
proof (rule tree_inv_cong [OF assms(1)])
  show "h' (Root tg' this) = h (Root tg' this)" using assms(2,3) by auto
  show "\<forall>x\<in>set (inorder t). h' (Elt tg' x) = h (Elt tg' x)" using assms(2,3) by auto
qed

lemma tree_find_present:
  assumes "strict_weak_order cmp" "tree_inv tg h this t" "\<forall>x. gk (Elt tg x) = Some (k x)"
    "sorted_wrt cmp (map k (inorder t))" "a \<in> set (inorder t)" "key_equiv cmp (k a) key"
  shows "tree_find cmp gk h (Root tg this) key = Some (Some (Elt tg a))"
  using find_loop_present [OF assms(1) _ assms(3,4,5,6), of h "Root tg this" "left (h (Root tg this))" "Root tg this"]
    assms(2)
  by (simp add: tree_find_def tree_inv_def)

lemma tree_find_absent:
  assumes "tree_inv tg h this t" "\<forall>x. gk (Elt tg x) = Some (k x)"
    "\<forall>x\<in>set (inorder t). \<not> key_equiv cmp (k x) key"
  shows "tree_find cmp gk h (Root tg this) key = Some (tree_end (Root tg this))"
  using find_loop_absent [OF _ assms(2,3), of h "Root tg this" "left (h (Root tg this))" "Root tg this"]
    assms(1)
  by (simp add: tree_find_def tree_inv_def)

lemma tree_insert_shape:
  assumes inv: "tree_inv tg h this t" and fresh: "a \<notin> set (inorder t)"
    and gk: "\<forall>x. gk (Elt tg x) = Some (k x)"
    and ne: "\<forall>x\<in>set (inorder t). \<not> key_equiv cmp (k x) (k a)"
    and la: "left (h (Elt tg a)) = nullptr" and ra: "right (h (Elt tg a)) = nullptr"
  shows "\<exists>i h'. tree_insert cmp gk h (Root tg this) (Elt tg a) = Some (i, h') \<and>
     tree_inv tg h' this (shape_ins cmp k a t) \<and>
     (\<forall>p. p \<noteq> Root tg this \<and> p \<notin> Elt tg ` insert a (set (inorder t)) \<longrightarrow> h' p = h p)"
proof (cases "left (h (Root tg this))")
  case None
  let ?h' = "link_left h (Some (Root tg this)) (Some (Elt tg a))"
  from inv None have t: "t = Tip" by (simp add: tree_inv_def subtree_None)
  have run: "tree_insert cmp gk h (Root tg this) (Elt tg a) = Some (nullptr, ?h')"
    using None by (simp add: tree_insert_def)
  have "tree_inv tg ?h' this (shape_ins cmp k a t)"
    using inv t la ra by (simp add: tree_inv_def link_left_apply)
  moreover have "\<forall>p. p \<noteq> Root tg this \<and> p \<notin> Elt tg ` insert a (set (inorder t)) \<longrightarrow> ?h' p = h p"
    by (simp add: link_left_apply)
  ultimately show ?thesis using run by blast
next
  case (Some c)
  from inv Some have s: "subtree tg h (Root tg this) (Some c) t" and d: "distinct (inorder t)"
    and rr: "right (h (Root tg this)) = nullptr"
    by (simp_all add: tree_inv_def)
  from insert_loop_shape [OF s d fresh gk ne la ra, of "Root tg this"]
  obtain h' where run': "insert_loop cmp gk h (Root tg this) c (Elt tg a) = Some (Some (Elt tg a), h')"
    and s': "subtree tg h' (Root tg this) (Some c) (shape_ins cmp k a t)"
    and fr: "\<forall>p. p \<notin> Elt tg ` insert a (set (inorder t)) \<longrightarrow> h' p = h p"
    by blast
  have hr: "h' (Root tg this) = h (Root tg this)" using fr by auto
  have "tree_inv tg h' this (shape_ins cmp k a t)"
    using s' hr Some rr distinct_shape_ins [OF ne fresh d] by (simp add: tree_inv_def)
  moreover have "tree_insert cmp gk h (Root tg this) (Elt tg a) = Some (Some (Elt tg a), h')"
    using Some run' by (simp add: tree_insert_def)
  ultimately show ?thesis using fr by blast
qed

lemma tree_unlink_shape:
  assumes inv: "tree_inv tg h this t" and x: "x \<in> set (inorder t)"
  shows "\<exists>h'. unlink h (Elt tg x) = Some h' \<and> tree_inv tg h' this (shape_remove x t) \<and>
     (\<forall>p. p \<noteq> Root tg this \<and> p \<notin> Elt tg ` set (inorder t) \<longrightarrow> h' p = h p)"
proof -
  from inv have s: "subtree tg h (Root tg this) (child True h (Root tg this)) t"
    and d: "distinct (inorder t)" and rr: "right (h (Root tg this)) = nullptr"
    by (simp_all add: tree_inv_def child_def)
  have "\<exists>h'. unlink h (Elt tg x) = Some h' \<and>
        subtree tg h' (Root tg this) (child True h' (Root tg this)) (shape_remove x t) \<and>
        (\<forall>p. p \<noteq> Root tg this \<and> p \<notin> Elt tg ` set (inorder t) \<longrightarrow> h' p = h p) \<and>
        parent (h' (Root tg this)) = parent (h (Root tg this)) \<and>
        child (\<not> True) h' (Root tg this) = child (\<not> True) h (Root tg this)"
    by (rule unlink_shape [OF s d x]) auto
  then show ?thesis using rr d by (auto simp: tree_inv_def child_def distinct_shape_remove)
qed

lemma sorted_wrt_map_remove1:
  "sorted_wrt P (map f xs) \<Longrightarrow> sorted_wrt P (map f (remove1 a xs))"
proof (induction xs)
  case Nil
  then show ?case by simp
next
  case (Cons x xs)
  have "set (remove1 a xs) \<subseteq> set xs" by (rule set_remove1_subset)
  with Cons show ?case by auto
qed

lemma get_key_left_Elt [simp]: "get_key_left s (Elt left_tag x) = Some (fst (lr s x))"
  by (simp add: get_key_left_def node_of_def)

lemma get_key_right_Elt [simp]: "get_key_right s (Elt right_tag x) = Some (snd (lr s x))"
  by (simp add: get_key_right_def node_of_def)

lemma find_left_present:
  assumes "bimap_inv T this s lt rt" "a \<in> set (inorder lt)"
    "key_equiv (CompareLeft T) (fst (lr s a)) key"
  shows "find_left T this key s = Some \<lparr>it = Some (Elt left_tag a), map_p = this\<rparr>"
  using tree_find_present [of "CompareLeft T" left_tag "cells s" this lt "get_key_left s"
      "\<lambda>a. fst (lr s a)" a key] assms
  by (simp add: find_left_def bimap_inv_def)

lemma find_left_absent:
  assumes "bimap_inv T this s lt rt"
    "\<forall>x\<in>set (inorder lt). \<not> key_equiv (CompareLeft T) (fst (lr s x)) key"
  shows "find_left T this key s = Some (bimap_end left_tag this)"
  using tree_find_absent [of left_tag "cells s" this lt "get_key_left s"
      "\<lambda>a. fst (lr s a)" "CompareLeft T" key] assms
  by (simp add: find_left_def bimap_inv_def bimap_end_def)

lemma find_right_present:
  assumes "bimap_inv T this s lt rt" "a \<in> set (inorder rt)"
    "key_equiv (CompareRight T) (snd (lr s a)) key"
  shows "find_right T this key s = Some \<lparr>it = Some (Elt right_tag a), map_p = this\<rparr>"
  using tree_find_present [of "CompareRight T" right_tag "cells s" this rt "get_key_right s"
      "\<lambda>a. snd (lr s a)" a key] assms
  by (simp add: find_right_def bimap_inv_def)

lemma find_right_absent:
  assumes "bimap_inv T this s lt rt"
    "\<forall>x\<in>set (inorder rt). \<not> key_equiv (CompareRight T) (snd (lr s x)) key"
  shows "find_right T this key s = Some (bimap_end right_tag this)"
  using tree_find_absent [of right_tag "cells s" this rt "get_key_right s"
      "\<lambda>a. snd (lr s a)" "CompareRight T" key] assms
  by (simp add: find_right_def bimap_inv_def bimap_end_def)

lemma bimap_inv_construct:
  assumes "strict_weak_order (CompareLeft T)" "strict_weak_order (CompareRight T)"
  shows "bimap_inv T this (bimap_construct this s) Tip Tip"
  using assms by (simp add: bimap_inv_def bimap_construct_def tree_inv_def detached_def)

subsection \<open>Lookup and cross-side navigation\<close>

lemma swo_int_less: "strict_weak_order ((<) :: int \<Rightarrow> int \<Rightarrow> bool)"
  by (auto simp: strict_weak_order_def key_equiv_def)

lemma two_entries_inv:
  "bimap_inv int_bimap 0 two_entries (Fork Tip 0 (Fork Tip 1 Tip)) (Fork (Fork Tip 1 Tip) 0 Tip)"
proof -
  have "tree_inv left_tag (cells two_entries) 0 (Fork Tip 0 (Fork Tip 1 Tip))" by code_simp
  moreover have "tree_inv right_tag (cells two_entries) 0 (Fork (Fork Tip 1 Tip) 0 Tip)" by code_simp
  moreover have "heap_top two_entries = 2" by code_simp
  moreover have "map (\<lambda>a. fst (lr two_entries a)) [0, 1] = [1, 2]" by code_simp
  moreover have "map (\<lambda>a. snd (lr two_entries a)) [1, 0] = [10, 20]" by code_simp
  ultimately show ?thesis using swo_int_less by (simp add: bimap_inv_def int_bimap_def insert_commute)
qed

text \<open>
  Lookup on a map that satisfies the invariant: \<^verbatim>\<open>at_left(k)\<close> returns the right value
  of the resident entry whose left key is equivalent to \<open>k\<close>, and throws
  \<^verbatim>\<open>std::out_of_range\<close> when no resident entry has such a left key; likewise
  \<^verbatim>\<open>at_right\<close>. Both are \<^verbatim>\<open>const\<close>: they return no new store.
\<close>

theorem at_on_ordered_map:
  assumes "bimap_inv T this s lt rt"
  shows "(a \<in> set (inorder lt) \<and> key_equiv (CompareLeft T) (fst (lr s a)) k \<longrightarrow>
            at_left T this k s = Some (Inr (snd (lr s a)))) \<and>
         ((\<forall>x\<in>set (inorder lt). \<not> key_equiv (CompareLeft T) (fst (lr s x)) k) \<longrightarrow>
            at_left T this k s = Some (Inl out_of_range)) \<and>
         (b \<in> set (inorder rt) \<and> key_equiv (CompareRight T) (snd (lr s b)) k' \<longrightarrow>
            at_right T this k' s = Some (Inr (fst (lr s b)))) \<and>
         ((\<forall>x\<in>set (inorder rt). \<not> key_equiv (CompareRight T) (snd (lr s x)) k') \<longrightarrow>
            at_right T this k' s = Some (Inl out_of_range))"
proof (intro conjI impI)
  assume "a \<in> set (inorder lt) \<and> key_equiv (CompareLeft T) (fst (lr s a)) k"
  then have "find_left T this k s = Some \<lparr>it = Some (Elt left_tag a), map_p = this\<rparr>"
    using find_left_present [OF assms] by blast
  then show "at_left T this k s = Some (Inr (snd (lr s a)))"
    by (simp add: at_left_def iter_eq_def bimap_end_def tree_end_def flip_def node_of_def
        tree_as_iterator_def deref_right_def)
next
  assume "\<forall>x\<in>set (inorder lt). \<not> key_equiv (CompareLeft T) (fst (lr s x)) k"
  then have "find_left T this k s = Some (bimap_end left_tag this)"
    using find_left_absent [OF assms] by blast
  then show "at_left T this k s = Some (Inl out_of_range)"
    by (simp add: at_left_def iter_eq_def)
next
  assume "b \<in> set (inorder rt) \<and> key_equiv (CompareRight T) (snd (lr s b)) k'"
  then have "find_right T this k' s = Some \<lparr>it = Some (Elt right_tag b), map_p = this\<rparr>"
    using find_right_present [OF assms] by blast
  then show "at_right T this k' s = Some (Inr (fst (lr s b)))"
    by (simp add: at_right_def iter_eq_def bimap_end_def tree_end_def flip_def node_of_def
        tree_as_iterator_def deref_left_def)
next
  assume "\<forall>x\<in>set (inorder rt). \<not> key_equiv (CompareRight T) (snd (lr s x)) k'"
  then have "find_right T this k' s = Some (bimap_end right_tag this)"
    using find_right_absent [OF assms] by blast
  then show "at_right T this k' s = Some (Inl out_of_range)"
    by (simp add: at_right_def iter_eq_def)
qed

theorem at_on_ordered_map_witness:
  "bimap_inv int_bimap 0 two_entries (Fork Tip 0 (Fork Tip 1 Tip)) (Fork (Fork Tip 1 Tip) 0 Tip) \<and>
   at_left int_bimap 0 2 two_entries = Some (Inr 10) \<and>
   at_left int_bimap 0 7 two_entries = Some (Inl out_of_range) \<and>
   at_right int_bimap 0 20 two_entries = Some (Inr 1) \<and>
   at_right int_bimap 0 7 two_entries = Some (Inl out_of_range)"
proof -
  have l: "lr two_entries 0 = (1, 20)" "lr two_entries 1 = (2, 10)" by code_simp+
  from at_on_ordered_map [OF two_entries_inv, of 1 2 0 20]
       at_on_ordered_map [OF two_entries_inv, of 1 7 0 7]
  show ?thesis using two_entries_inv l
    by (simp add: key_equiv_def int_bimap_def)
qed

text \<open>
  The two sides of a map that satisfies the invariant: for every resident entry \<open>(l, r)\<close>
  \<^verbatim>\<open>find_left(l)\<close> is the left position of that entry, whose flipped position has the
  value \<open>r\<close>, and \<^verbatim>\<open>find_right(r)\<close> is its right position, whose flipped position has
  the value \<open>l\<close>. \<^verbatim>\<open>flip\<close> takes the left position of an entry to its right position and
  back, and the end of one side to the end of the other and back.
\<close>

theorem find_and_flip_on_ordered_map:
  assumes "bimap_inv T this s lt rt" "a \<in> set (inorder lt)" "lr s a = (l, r)"
  shows "find_left T this l s = Some \<lparr>it = Some (Elt left_tag a), map_p = this\<rparr> \<and>
         find_right T this r s = Some \<lparr>it = Some (Elt right_tag a), map_p = this\<rparr> \<and>
         (find_left T this l s \<bind> flip left_tag \<bind> deref_right s) = Some r \<and>
         (find_right T this r s \<bind> flip right_tag \<bind> deref_left s) = Some l \<and>
         flip left_tag \<lparr>it = Some (Elt left_tag a), map_p = this\<rparr> =
           Some \<lparr>it = Some (Elt right_tag a), map_p = this\<rparr> \<and>
         flip right_tag \<lparr>it = Some (Elt right_tag a), map_p = this\<rparr> =
           Some \<lparr>it = Some (Elt left_tag a), map_p = this\<rparr> \<and>
         (flip left_tag \<lparr>it = Some (Elt left_tag a), map_p = this\<rparr> \<bind> flip right_tag) =
           Some \<lparr>it = Some (Elt left_tag a), map_p = this\<rparr> \<and>
         (flip right_tag \<lparr>it = Some (Elt right_tag a), map_p = this\<rparr> \<bind> flip left_tag) =
           Some \<lparr>it = Some (Elt right_tag a), map_p = this\<rparr> \<and>
         flip left_tag (end_left this) = Some (end_right this) \<and>
         flip right_tag (end_right this) = Some (end_left this) \<and>
         (flip left_tag (end_left this) \<bind> flip right_tag) = Some (end_left this) \<and>
         (flip right_tag (end_right this) \<bind> flip left_tag) = Some (end_right this)"
proof -
  from assms(1) have swo: "strict_weak_order (CompareLeft T)" "strict_weak_order (CompareRight T)"
    and sets: "set (inorder lt) = set (inorder rt)"
    by (simp_all add: bimap_inv_def)
  have "key_equiv (CompareLeft T) (fst (lr s a)) l"
    using swo_irrefl [OF swo(1)] assms(3) by (simp add: key_equiv_def)
  from find_left_present [OF assms(1,2) this]
  have fl: "find_left T this l s = Some \<lparr>it = Some (Elt left_tag a), map_p = this\<rparr>" .
  have "key_equiv (CompareRight T) (snd (lr s a)) r"
    using swo_irrefl [OF swo(2)] assms(3) by (simp add: key_equiv_def)
  moreover have "a \<in> set (inorder rt)" using assms(2) sets by simp
  ultimately have fr: "find_right T this r s = Some \<lparr>it = Some (Elt right_tag a), map_p = this\<rparr>"
    using find_right_present [OF assms(1)] by blast
  show ?thesis using fl fr assms(3)
    by (simp add: flip_def tree_end_def node_of_def tree_as_iterator_def deref_left_def
        deref_right_def end_left_def end_right_def bimap_end_def)
qed

theorem find_and_flip_on_ordered_map_witness:
  "bimap_inv int_bimap 0 two_entries (Fork Tip 0 (Fork Tip 1 Tip)) (Fork (Fork Tip 1 Tip) 0 Tip) \<and>
   1 \<in> set (inorder (Fork Tip 0 (Fork Tip 1 Tip))) \<and> lr two_entries 1 = (2, 10) \<and>
   find_left int_bimap 0 2 two_entries = Some \<lparr>it = Some (Elt left_tag 1), map_p = 0\<rparr> \<and>
   find_right int_bimap 0 10 two_entries = Some \<lparr>it = Some (Elt right_tag 1), map_p = 0\<rparr> \<and>
   (find_left int_bimap 0 2 two_entries \<bind> flip left_tag \<bind> deref_right two_entries) = Some 10 \<and>
   (find_right int_bimap 0 10 two_entries \<bind> flip right_tag \<bind> deref_left two_entries) = Some 2 \<and>
   (flip left_tag \<lparr>it = Some (Elt left_tag 1), map_p = 0\<rparr> \<bind> flip right_tag) =
     Some \<lparr>it = Some (Elt left_tag 1), map_p = 0\<rparr>"
proof -
  have l: "lr two_entries 1 = (2, 10)" by code_simp
  from find_and_flip_on_ordered_map [OF two_entries_inv _ l]
  show ?thesis using two_entries_inv l by (simp add: deref_right_def deref_left_def node_of_def)
qed

text \<open>
  Claim C10. When the left child of the sentinel is null, \<^verbatim>\<open>intr_tree::insert\<close> links the
  element as the left child of the sentinel and returns the null iterator, not the
  position of the element. Whenever \<^verbatim>\<open>insert_no_check\<close> returns, its result is
  \<^verbatim>\<open>as_iterator\<close> of the new node, and on a map whose two trees are empty it does
  return.
\<close>

theorem tree_insert_empty_returns_null:
  "(left (h root) = nullptr \<longrightarrow>
      tree_insert cmp get_key h root elt_p = Some (nullptr, link_left h (Some root) (Some elt_p)) \<and>
      left (link_left h (Some root) (Some elt_p) root) = Some elt_p \<and>
      nullptr \<noteq> Some elt_p) \<and>
   (insert_no_check T this l r s = Some (i, s') \<longrightarrow>
      i = \<lparr>it = tree_as_iterator left_tag (heap_top s), map_p = this\<rparr>) \<and>
   (left (cells s (Root left_tag this)) = nullptr \<and> left (cells s (Root right_tag this)) = nullptr \<longrightarrow>
      (\<exists>s'. insert_no_check T this l r s =
         Some (\<lparr>it = Some (Elt left_tag (heap_top s)), map_p = this\<rparr>, s')))"
  by (auto simp: tree_insert_def link_left_apply insert_no_check_def new_node_def Let_def
      tree_as_iterator_def split: prod.splits Option.bind_splits)

theorem tree_insert_empty_returns_null_witness:
  "left (cells empty_map (Root left_tag 0)) = nullptr \<and>
   left (cells empty_map (Root right_tag 0)) = nullptr \<and>
   map_option fst (tree_insert (<) (get_key_left empty_map) (cells empty_map) (Root left_tag 0)
     (Elt left_tag 0)) = Some nullptr \<and>
   map_option fst (insert_no_check int_bimap 0 5 7 empty_map) =
     Some \<lparr>it = Some (Elt left_tag 0), map_p = 0\<rparr>"
proof -
  have e: "left (cells empty_map (Root left_tag 0)) = nullptr"
    "left (cells empty_map (Root right_tag 0)) = nullptr" "heap_top empty_map = 0"
    by code_simp+
  from tree_insert_empty_returns_null [of "cells empty_map" "Root left_tag 0" "(<)"
      "get_key_left empty_map" "Elt left_tag 0" int_bimap 0 5 7 empty_map]
  show ?thesis using e by auto
qed

subsection \<open>Where the code departs from the specification\<close>

text \<open>
  Claim C1, at the input where it fails. On the map holding \<open>(10, 1)\<close>,
  \<^verbatim>\<open>at_left_or_default(5)\<close> inserts the placeholder \<open>(5, 0)\<close> as the left child of the
  node with left key 10. \<^verbatim>\<open>at_left_or_default(20)\<close> then overwrites the left key of the
  placeholder with 20 and returns the default 0, but leaves the node where it is in
  the left tree: \<^verbatim>\<open>find_left(20)\<close> returns \<^verbatim>\<open>end_left\<close> and \<^verbatim>\<open>at_left(20)\<close> throws.
\<close>

theorem at_left_or_default_repair_not_found:
  "do {
     (i1, s1) \<leftarrow> insert' int_bimap 0 10 1 empty_map;
     (v2, s2) \<leftarrow> at_left_or_default int_bimap 0 5 s1;
     (v3, s3) \<leftarrow> at_left_or_default int_bimap 0 20 s2;
     i \<leftarrow> find_left int_bimap 0 20 s3;
     Some (v2, lr s2 1, v3, lr s3 1, bimap_size 0 s3, i, at_left int_bimap 0 20 s3)
   } = Some (0, (5, 0), 0, (20, 0), 2, end_left 0, Some (Inl out_of_range))"
  by code_simp

text \<open>
  Claim C2, at the input where it fails. After the same three operations the traversal
  of the left tree from \<^verbatim>\<open>begin_left\<close> to \<^verbatim>\<open>end_left\<close> visits the left keys 20, 10, which
  are not increasing; a following \<^verbatim>\<open>insert(20, 7)\<close> succeeds and leaves two entries with
  the left key 20.
\<close>

theorem left_traversal_not_increasing:
  "do {
     (i1, s1) \<leftarrow> insert' int_bimap 0 10 1 empty_map;
     (v2, s2) \<leftarrow> at_left_or_default int_bimap 0 5 s1;
     (v3, s3) \<leftarrow> at_left_or_default int_bimap 0 20 s2;
     ks3 \<leftarrow> left_keys s3 0;
     (i4, s4) \<leftarrow> insert' int_bimap 0 20 7 s3;
     ks4 \<leftarrow> left_keys s4 0;
     Some (ks3, sorted_wrt (CompareLeft int_bimap) ks3, iter_eq i4 (end_left 0), ks4)
   } = Some ([20, 10], False, False, [20, 10, 20])"
  by code_simp

text \<open>
  Claim C3, at the inputs where it fails. \<^verbatim>\<open>erase_left(1)\<close> on the empty map returns true
  although no entry was removed. On the map holding \<open>(1, 20)\<close> and \<open>(2, 10)\<close>,
  \<^verbatim>\<open>erase_left(2)\<close> removes the entry with the greatest left key and returns false, and
  \<^verbatim>\<open>erase_right(20)\<close> removes the entry with the greatest right key and returns false.
\<close>

theorem erase_key_result_wrong:
  "map_option fst (erase_left_key int_bimap 0 1 empty_map) = Some True \<and>
   do { (b, s') \<leftarrow> erase_left_key int_bimap 0 2 two_entries;
        ks \<leftarrow> left_keys s' 0;
        Some (left_keys two_entries 0, b, ks, bimap_size 0 s') } = Some (Some [1, 2], False, [1], 1) \<and>
   do { (b, s') \<leftarrow> erase_right_key int_bimap 0 20 two_entries;
        ks \<leftarrow> right_keys s' 0;
        Some (right_keys two_entries 0, b, ks, bimap_size 0 s') } = Some (Some [10, 20], False, [10], 1)"
  by code_simp

text \<open>
  Claim C4, at the input where it fails. After the map 1 is move-constructed, or
  move-assigned, from the map 0 holding two entries, the map 0 is empty and both its
  traversals visit no entry, but its \<^verbatim>\<open>size()\<close> is still 2.
\<close>

theorem moved_from_size_not_reset:
  "(let s = move_construct 1 0 two_entries in
      (bimap_empty 0 s, left_keys s 0, right_keys s 0, bimap_size 0 s,
       left_keys s 1, right_keys s 1, bimap_size 1 s)) =
     (True, Some [], Some [], 2, Some [1, 2], Some [10, 20], 2) \<and>
   map_option (\<lambda>s. (bimap_empty 0 s, left_keys s 0, right_keys s 0, bimap_size 0 s,
       left_keys s 1, right_keys s 1, bimap_size 1 s))
     (move_assign 1 0 (bimap_construct 1 two_entries)) =
     Some (True, Some [], Some [], 2, Some [1, 2], Some [10, 20], 2)"
  by code_simp

text \<open>
  Claim C5, at the input where it fails. In the left tree of the map holding \<open>(2, 2)\<close>,
  \<open>(1, 1)\<close> and \<open>(3, 3)\<close> the node 1 is a leaf, the left child of the node 0, whose right
  child is the node 2. \<^verbatim>\<open>unlink\<close> of the node 1 takes it out of the tree but leaves its
  parent reference set, so that \<^verbatim>\<open>in_tree\<close> still holds of it; a second \<^verbatim>\<open>unlink\<close> of the
  node 1 then clears the right child of the node 0 and the node 2 is lost from the tree.
\<close>

theorem unlink_leaf_keeps_parent:
  "do {
     h1 \<leftarrow> unlink (cells three_entries) (Elt left_tag 1);
     h2 \<leftarrow> unlink h1 (Elt left_tag 1);
     Some (traverse (cells three_entries) (Root left_tag 0), cells three_entries (Elt left_tag 1),
           traverse h1 (Root left_tag 0), h1 (Elt left_tag 1), in_tree h1 (Elt left_tag 1),
           traverse h2 (Root left_tag 0))
   } = Some (Some [Elt left_tag 1, Elt left_tag 0, Elt left_tag 2],
             \<lparr>left = nullptr, right = nullptr, parent = Some (Elt left_tag 0)\<rparr>,
             Some [Elt left_tag 0, Elt left_tag 2],
             \<lparr>left = nullptr, right = nullptr, parent = Some (Elt left_tag 0)\<rparr>, True,
             Some [Elt left_tag 0])"
  by code_simp

text \<open>
  Claim C6, at the input where it fails. After \<^verbatim>\<open>insert(10, 1)\<close>,
  \<^verbatim>\<open>at_left_or_default(5)\<close> and \<^verbatim>\<open>at_left_or_default(20)\<close> the map holds \<open>(20, 0)\<close> and
  \<open>(10, 1)\<close> and its \<^verbatim>\<open>size()\<close> is 2. \<^verbatim>\<open>insert(20, 7)\<close>, whose left key is the left key
  of the resident entry \<open>(20, 0)\<close>, does not return \<^verbatim>\<open>end_left\<close>: it returns the position
  of a new entry, the map then holds three entries, two of them with the left key 20,
  and its \<^verbatim>\<open>size()\<close> is 3.
\<close>

theorem insert_accepts_resident_left_key:
  "do {
     (i1, s1) \<leftarrow> insert' int_bimap 0 10 1 empty_map;
     (v2, s2) \<leftarrow> at_left_or_default int_bimap 0 5 s1;
     (v3, s3) \<leftarrow> at_left_or_default int_bimap 0 20 s2;
     (i4, s4) \<leftarrow> insert' int_bimap 0 20 7 s3;
     Some (left_keys s3 0, right_keys s3 0, lr s3 1, bimap_size 0 s3,
           i4, iter_eq i4 (end_left 0),
           left_keys s4 0, right_keys s4 0, lr s4 1, lr s4 2, bimap_size 0 s4)
   } = Some (Some [20, 10], Some [0, 1], (20, 0), 2,
             \<lparr>it = Some (Elt left_tag 2), map_p = 0\<rparr>, False,
             Some [20, 10, 20], Some [0, 1, 7], (20, 0), (20, 7), 3)"
  by code_simp

text \<open>
  Claim C8, at the input where it fails. After \<^verbatim>\<open>insert(10, 1)\<close>,
  \<^verbatim>\<open>at_left_or_default(5)\<close>, \<^verbatim>\<open>insert(3, 7)\<close> and \<^verbatim>\<open>at_left_or_default(1)\<close> the map holds
  \<open>(3, 7)\<close>, \<open>(1, 0)\<close> and \<open>(10, 1)\<close>. The entry \<open>(3, 7)\<close> is present, and \<^verbatim>\<open>at_right(7)\<close>
  returns its left value 3, but \<^verbatim>\<open>at_left(3)\<close> throws \<^verbatim>\<open>std::out_of_range\<close>.
\<close>

theorem at_left_throws_for_resident_key:
  "do {
     (i1, s1) \<leftarrow> insert' int_bimap 0 10 1 empty_map;
     (v2, s2) \<leftarrow> at_left_or_default int_bimap 0 5 s1;
     (i3, s3) \<leftarrow> insert' int_bimap 0 3 7 s2;
     (v4, s4) \<leftarrow> at_left_or_default int_bimap 0 1 s3;
     Some (left_keys s4 0, right_keys s4 0, lr s4 2,
           at_right int_bimap 0 7 s4, at_left int_bimap 0 3 s4)
   } = Some (Some [3, 1, 10], Some [0, 1, 7], (3, 7),
             Some (Inr 3), Some (Inl out_of_range))"
  by code_simp

text \<open>
  Claim C9, at the input where it fails. In the same sequence of calls the pair
  \<open>(3, 7)\<close> is inserted by \<^verbatim>\<open>insert\<close>, which returns the position of the new node 2, and is
  neither erased nor rewritten afterwards. \<^verbatim>\<open>find_right(7)\<close> is the right position of the
  node 2, whose flipped position has the value 3, but \<^verbatim>\<open>find_left(3)\<close> is \<^verbatim>\<open>end_left\<close>.
\<close>

theorem find_left_misses_inserted_pair:
  "do {
     (i1, s1) \<leftarrow> insert' int_bimap 0 10 1 empty_map;
     (v2, s2) \<leftarrow> at_left_or_default int_bimap 0 5 s1;
     (i3, s3) \<leftarrow> insert' int_bimap 0 3 7 s2;
     (v4, s4) \<leftarrow> at_left_or_default int_bimap 0 1 s3;
     fr \<leftarrow> find_right int_bimap 0 7 s4;
     fl \<leftarrow> find_left int_bimap 0 3 s4;
     Some (i3, lr s3 2, lr s4 2, fr, flip right_tag fr \<bind> deref_left s4, fl)
   } = Some (\<lparr>it = Some (Elt left_tag 2), map_p = 0\<rparr>, (3, 7), (3, 7),
             \<lparr>it = Some (Elt right_tag 2), map_p = 0\<rparr>, Some 3, end_left 0)"
  by code_simp

subsection \<open>Insertion and erasure\<close>

lemma insert_no_check_new_entry:
  assumes inv: "bimap_inv T this s lt rt"
    and nl: "\<forall>x\<in>set (inorder lt). \<not> key_equiv (CompareLeft T) (fst (lr s x)) l"
    and nr: "\<forall>x\<in>set (inorder rt). \<not> key_equiv (CompareRight T) (snd (lr s x)) r"
  shows "\<exists>s' lt' rt'.
     insert_no_check T this l r s = Some (\<lparr>it = Some (Elt left_tag (heap_top s)), map_p = this\<rparr>, s') \<and>
     bimap_inv T this s' lt' rt' \<and>
     set (inorder lt') = insert (heap_top s) (set (inorder lt)) \<and>
     set (inorder rt') = insert (heap_top s) (set (inorder rt)) \<and>
     heap_top s \<notin> set (inorder lt) \<and>
     lr s' = (lr s)(heap_top s := (l, r)) \<and>
     size' s' this = size' s this + 1"
proof -
  define a where "a = heap_top s"
  define s2 where "s2 = snd (new_node l r (s\<lparr>size' := (size' s)(this := size' s this + 1)\<rparr>))"
  define kL where "kL = (\<lambda>x. fst (lr s2 x))"
  define kR where "kR = (\<lambda>x. snd (lr s2 x))"
  let ?cl = "CompareLeft T" and ?cr = "CompareRight T"
  from inv have iL: "tree_inv left_tag (cells s) this lt" and iR: "tree_inv right_tag (cells s) this rt"
    and sets: "set (inorder lt) = set (inorder rt)"
    and top: "\<forall>x\<in>set (inorder lt). x < heap_top s"
    and sL: "sorted_wrt ?cl (map (\<lambda>x. fst (lr s x)) (inorder lt))"
    and sR: "sorted_wrt ?cr (map (\<lambda>x. snd (lr s x)) (inorder rt))"
    and swoL: "strict_weak_order ?cl" and swoR: "strict_weak_order ?cr"
    by (simp_all add: bimap_inv_def)
  have faL: "a \<notin> set (inorder lt)" using top by (auto simp: a_def)
  then have faR: "a \<notin> set (inorder rt)" using sets by simp
  have c2: "cells s2 = (cells s)(Elt left_tag a := detached, Elt right_tag a := detached)"
    and l2: "lr s2 = (lr s)(a := (l, r))" and t2: "heap_top s2 = Suc a"
    and z2: "size' s2 = (size' s)(this := size' s this + 1)"
    by (simp_all add: s2_def new_node_def Let_def a_def)
  have kLa: "kL a = l" and kRa: "kR a = r" by (simp_all add: kL_def kR_def l2)
  have kLx: "\<And>x. x \<in> set (inorder lt) \<Longrightarrow> kL x = fst (lr s x)"
    using faL by (auto simp: kL_def l2)
  have kRx: "\<And>x. x \<in> set (inorder rt) \<Longrightarrow> kR x = snd (lr s x)"
    using faR by (auto simp: kR_def l2)
  have iL2: "tree_inv left_tag (cells s2) this lt"
    by (rule tree_inv_cong [OF iL]) (use faL in \<open>auto simp: c2\<close>)
  have iR2: "tree_inv right_tag (cells s2) this rt"
    by (rule tree_inv_cong [OF iR]) (use faR in \<open>auto simp: c2\<close>)
  have neL: "\<forall>x\<in>set (inorder lt). \<not> key_equiv ?cl (kL x) (kL a)" using nl kLx kLa by simp
  have neR: "\<forall>x\<in>set (inorder rt). \<not> key_equiv ?cr (kR x) (kR a)" using nr kRx kRa by simp
  have gkL: "\<forall>x. get_key_left s2 (Elt left_tag x) = Some (kL x)" by (simp add: kL_def)
  have gkR: "\<forall>x. get_key_right s2 (Elt right_tag x) = Some (kR x)" by (simp add: kR_def)
  have "left (cells s2 (Elt left_tag a)) = nullptr" "right (cells s2 (Elt left_tag a)) = nullptr"
    by (simp_all add: c2 detached_def)
  from tree_insert_shape [OF iL2 faL gkL neL this]
  obtain i1 h1 where run1: "tree_insert ?cl (get_key_left s2) (cells s2) (Root left_tag this)
        (Elt left_tag a) = Some (i1, h1)"
    and iL1: "tree_inv left_tag h1 this (shape_ins ?cl kL a lt)"
    and fr1: "\<forall>p. p \<noteq> Root left_tag this \<and> p \<notin> Elt left_tag ` insert a (set (inorder lt)) \<longrightarrow>
        h1 p = cells s2 p"
    by blast
  have iR1: "tree_inv right_tag h1 this rt"
    by (rule tree_inv_other_tag [OF iR2 _ fr1]) simp
  have "h1 (Elt right_tag a) = cells s2 (Elt right_tag a)" using fr1 by auto
  then have "left (h1 (Elt right_tag a)) = nullptr" "right (h1 (Elt right_tag a)) = nullptr"
    by (simp_all add: c2 detached_def)
  from tree_insert_shape [OF iR1 faR gkR neR this]
  obtain i2 h2 where run2: "tree_insert ?cr (get_key_right s2) h1 (Root right_tag this)
        (Elt right_tag a) = Some (i2, h2)"
    and iR2': "tree_inv right_tag h2 this (shape_ins ?cr kR a rt)"
    and fr2: "\<forall>p. p \<noteq> Root right_tag this \<and> p \<notin> Elt right_tag ` insert a (set (inorder rt)) \<longrightarrow>
        h2 p = h1 p"
    by blast
  have iL2': "tree_inv left_tag h2 this (shape_ins ?cl kL a lt)"
    by (rule tree_inv_other_tag [OF iL1 _ fr2]) simp
  define s' where "s' = s2\<lparr>cells := h2\<rparr>"
  have run: "insert_no_check T this l r s =
      Some (\<lparr>it = Some (Elt left_tag (heap_top s)), map_p = this\<rparr>, s')"
    using run1 run2
    by (simp add: insert_no_check_def s'_def s2_def new_node_def Let_def a_def tree_as_iterator_def)
  have setL: "set (inorder (shape_ins ?cl kL a lt)) = insert a (set (inorder lt))"
    by (rule set_shape_ins [OF neL])
  have setR: "set (inorder (shape_ins ?cr kR a rt)) = insert a (set (inorder rt))"
    by (rule set_shape_ins [OF neR])
  have mL: "map kL (inorder lt) = map (\<lambda>x. fst (lr s x)) (inorder lt)" using kLx by simp
  have "sorted_wrt ?cl (map kL (inorder lt))" unfolding mL by (rule sL)
  then have sL': "sorted_wrt ?cl (map kL (inorder (shape_ins ?cl kL a lt)))"
    by (rule sorted_shape_ins [OF swoL neL])
  have mR: "map kR (inorder rt) = map (\<lambda>x. snd (lr s x)) (inorder rt)" using kRx by simp
  have "sorted_wrt ?cr (map kR (inorder rt))" unfolding mR by (rule sR)
  then have sR': "sorted_wrt ?cr (map kR (inorder (shape_ins ?cr kR a rt)))"
    by (rule sorted_shape_ins [OF swoR neR])
  have "bimap_inv T this s' (shape_ins ?cl kL a lt) (shape_ins ?cr kR a rt)"
    unfolding bimap_inv_def
  proof (intro conjI)
    show "tree_inv left_tag (cells s') this (shape_ins ?cl kL a lt)" using iL2' by (simp add: s'_def)
    show "tree_inv right_tag (cells s') this (shape_ins ?cr kR a rt)" using iR2' by (simp add: s'_def)
    show "set (inorder (shape_ins ?cl kL a lt)) = set (inorder (shape_ins ?cr kR a rt))"
      using setL setR sets by simp
    show "\<forall>x\<in>set (inorder (shape_ins ?cl kL a lt)). x < heap_top s'"
      using setL top by (auto simp: s'_def t2 a_def less_Suc_eq)
    show "sorted_wrt ?cl (map (\<lambda>x. fst (lr s' x)) (inorder (shape_ins ?cl kL a lt)))"
      using sL' by (simp add: s'_def kL_def)
    show "sorted_wrt ?cr (map (\<lambda>x. snd (lr s' x)) (inorder (shape_ins ?cr kR a rt)))"
      using sR' by (simp add: s'_def kR_def)
    show "strict_weak_order ?cl" by (rule swoL)
    show "strict_weak_order ?cr" by (rule swoR)
  qed
  moreover have "lr s' = (lr s)(heap_top s := (l, r))" by (simp add: s'_def l2 a_def)
  moreover have "size' s' this = size' s this + 1" by (simp add: s'_def z2)
  ultimately show ?thesis using run setL setR faL unfolding a_def by blast
qed

text \<open>
  Insertion into a map that satisfies the invariant: \<^verbatim>\<open>insert(left, right)\<close> with a left key
  equivalent to the left key of a resident entry, or a right key equivalent to the
  right key of one, returns \<^verbatim>\<open>end_left\<close> and leaves the store as it is. Otherwise it
  returns the left position of a new node; the new store satisfies the invariant with
  the new node added to both trees, holds the pair in the new node and has \<^verbatim>\<open>size_\<close>
  incremented by one.
\<close>

theorem insert_on_ordered_map:
  assumes "bimap_inv T this s lt rt"
  shows "((\<exists>x\<in>set (inorder lt). key_equiv (CompareLeft T) (fst (lr s x)) l) \<or>
          (\<exists>x\<in>set (inorder rt). key_equiv (CompareRight T) (snd (lr s x)) r) \<longrightarrow>
            insert' T this l r s = Some (end_left this, s)) \<and>
         ((\<forall>x\<in>set (inorder lt). \<not> key_equiv (CompareLeft T) (fst (lr s x)) l) \<and>
          (\<forall>x\<in>set (inorder rt). \<not> key_equiv (CompareRight T) (snd (lr s x)) r) \<longrightarrow>
            (\<exists>s' lt' rt'.
               insert' T this l r s =
                 Some (\<lparr>it = Some (Elt left_tag (heap_top s)), map_p = this\<rparr>, s') \<and>
               bimap_inv T this s' lt' rt' \<and>
               set (inorder lt') = insert (heap_top s) (set (inorder lt)) \<and>
               set (inorder rt') = insert (heap_top s) (set (inorder rt)) \<and>
               heap_top s \<notin> set (inorder lt) \<and>
               lr s' = (lr s)(heap_top s := (l, r)) \<and>
               size' s' this = size' s this + 1))"
proof (intro conjI impI)
  assume c: "(\<exists>x\<in>set (inorder lt). key_equiv (CompareLeft T) (fst (lr s x)) l) \<or>
          (\<exists>x\<in>set (inorder rt). key_equiv (CompareRight T) (snd (lr s x)) r)"
  show "insert' T this l r s = Some (end_left this, s)"
  proof (cases "\<exists>x\<in>set (inorder lt). key_equiv (CompareLeft T) (fst (lr s x)) l")
    case True
    then obtain x where "x \<in> set (inorder lt)" "key_equiv (CompareLeft T) (fst (lr s x)) l" by blast
    from find_left_present [OF assms this]
    show ?thesis by (simp add: insert'_def iter_eq_def end_left_def bimap_end_def tree_end_def)
  next
    case False
    then have fl: "find_left T this l s = Some (bimap_end left_tag this)"
      using find_left_absent [OF assms] by blast
    from False c obtain x where "x \<in> set (inorder rt)" "key_equiv (CompareRight T) (snd (lr s x)) r"
      by blast
    from find_right_present [OF assms this] fl
    show ?thesis
      by (simp add: insert'_def iter_eq_def end_left_def end_right_def bimap_end_def tree_end_def)
  qed
next
  assume n: "(\<forall>x\<in>set (inorder lt). \<not> key_equiv (CompareLeft T) (fst (lr s x)) l) \<and>
          (\<forall>x\<in>set (inorder rt). \<not> key_equiv (CompareRight T) (snd (lr s x)) r)"
  then have fl: "find_left T this l s = Some (bimap_end left_tag this)"
    and fr: "find_right T this r s = Some (bimap_end right_tag this)"
    using find_left_absent [OF assms] find_right_absent [OF assms] by blast+
  have "insert' T this l r s = insert_no_check T this l r s"
    using fl fr by (simp add: insert'_def iter_eq_def end_left_def end_right_def)
  then show "\<exists>s' lt' rt'.
               insert' T this l r s =
                 Some (\<lparr>it = Some (Elt left_tag (heap_top s)), map_p = this\<rparr>, s') \<and>
               bimap_inv T this s' lt' rt' \<and>
               set (inorder lt') = insert (heap_top s) (set (inorder lt)) \<and>
               set (inorder rt') = insert (heap_top s) (set (inorder rt)) \<and>
               heap_top s \<notin> set (inorder lt) \<and>
               lr s' = (lr s)(heap_top s := (l, r)) \<and>
               size' s' this = size' s this + 1"
    using insert_no_check_new_entry [OF assms] n by simp
qed

theorem insert_on_ordered_map_witness:
  "bimap_inv int_bimap 0 two_entries (Fork Tip 0 (Fork Tip 1 Tip)) (Fork (Fork Tip 1 Tip) 0 Tip) \<and>
   insert' int_bimap 0 1 99 two_entries = Some (end_left 0, two_entries) \<and>
   insert' int_bimap 0 99 10 two_entries = Some (end_left 0, two_entries) \<and>
   (\<exists>s'. insert' int_bimap 0 3 15 two_entries =
      Some (\<lparr>it = Some (Elt left_tag 2), map_p = 0\<rparr>, s') \<and>
      lr s' 2 = (3, 15) \<and> size' s' 0 = 3)"
proof -
  have l: "lr two_entries 0 = (1, 20)" "lr two_entries 1 = (2, 10)" "heap_top two_entries = 2"
    "size' two_entries 0 = 2"
    by code_simp+
  from insert_on_ordered_map [OF two_entries_inv, of 1 99]
       insert_on_ordered_map [OF two_entries_inv, of 99 10]
       insert_on_ordered_map [OF two_entries_inv, of 3 15]
  show ?thesis using two_entries_inv l
    by (auto simp: key_equiv_def int_bimap_def)
qed

lemma delete_node_shape:
  assumes inv: "bimap_inv T this s lt rt" and a: "a \<in> set (inorder lt)"
  shows "\<exists>s'. delete_node a s = Some s' \<and>
     bimap_inv T this s' (shape_remove a lt) (shape_remove a rt) \<and>
     lr s' = lr s \<and> size' s' = size' s"
proof -
  let ?cl = "CompareLeft T" and ?cr = "CompareRight T"
  from inv have iL: "tree_inv left_tag (cells s) this lt" and iR: "tree_inv right_tag (cells s) this rt"
    and sets: "set (inorder lt) = set (inorder rt)"
    and top: "\<forall>x\<in>set (inorder lt). x < heap_top s"
    and sL: "sorted_wrt ?cl (map (\<lambda>x. fst (lr s x)) (inorder lt))"
    and sR: "sorted_wrt ?cr (map (\<lambda>x. snd (lr s x)) (inorder rt))"
    and swoL: "strict_weak_order ?cl" and swoR: "strict_weak_order ?cr"
    by (simp_all add: bimap_inv_def)
  from iL iR have dL: "distinct (inorder lt)" and dR: "distinct (inorder rt)"
    by (simp_all add: tree_inv_def)
  have aR: "a \<in> set (inorder rt)" using a sets by simp
  from tree_unlink_shape [OF iR aR]
  obtain h1 where run1: "unlink (cells s) (Elt right_tag a) = Some h1"
    and iR1: "tree_inv right_tag h1 this (shape_remove a rt)"
    and fr1: "\<forall>p. p \<noteq> Root right_tag this \<and> p \<notin> Elt right_tag ` set (inorder rt) \<longrightarrow> h1 p = cells s p"
    by blast
  have iL1: "tree_inv left_tag h1 this lt"
    by (rule tree_inv_other_tag [OF iL _ fr1]) simp
  from tree_unlink_shape [OF iL1 a]
  obtain h2 where run2: "unlink h1 (Elt left_tag a) = Some h2"
    and iL2: "tree_inv left_tag h2 this (shape_remove a lt)"
    and fr2: "\<forall>p. p \<noteq> Root left_tag this \<and> p \<notin> Elt left_tag ` set (inorder lt) \<longrightarrow> h2 p = h1 p"
    by blast
  have iR2: "tree_inv right_tag h2 this (shape_remove a rt)"
    by (rule tree_inv_other_tag [OF iR1 _ fr2]) simp
  define s' where "s' = s\<lparr>cells := h2\<rparr>"
  have run: "delete_node a s = Some s'" using run1 run2 by (simp add: delete_node_def s'_def)
  have "bimap_inv T this s' (shape_remove a lt) (shape_remove a rt)"
    unfolding bimap_inv_def
  proof (intro conjI)
    show "tree_inv left_tag (cells s') this (shape_remove a lt)" using iL2 by (simp add: s'_def)
    show "tree_inv right_tag (cells s') this (shape_remove a rt)" using iR2 by (simp add: s'_def)
    show "set (inorder (shape_remove a lt)) = set (inorder (shape_remove a rt))"
      using sets dL dR by (simp add: set_shape_remove)
    show "\<forall>x\<in>set (inorder (shape_remove a lt)). x < heap_top s'"
      using top dL by (simp add: set_shape_remove s'_def)
    show "sorted_wrt ?cl (map (\<lambda>x. fst (lr s' x)) (inorder (shape_remove a lt)))"
      using sorted_wrt_map_remove1 [OF sL, of a] dL by (simp add: inorder_shape_remove s'_def)
    show "sorted_wrt ?cr (map (\<lambda>x. snd (lr s' x)) (inorder (shape_remove a rt)))"
      using sorted_wrt_map_remove1 [OF sR, of a] dR by (simp add: inorder_shape_remove s'_def)
    show "strict_weak_order ?cl" by (rule swoL)
    show "strict_weak_order ?cr" by (rule swoR)
  qed
  then show ?thesis using run by (auto simp: s'_def)
qed

lemma bimap_inv_size' [simp]:
  "bimap_inv T this (s\<lparr>size' := z\<rparr>) lt rt = bimap_inv T this s lt rt"
  by (simp add: bimap_inv_def)

lemma bimap_inv_side:
  assumes "bimap_inv T this s lt rt"
  shows "tree_inv side (cells s) this (if side = left_tag then lt else rt)"
  using assms by (cases side) (simp_all add: bimap_inv_def)

lemma erase_resident:
  assumes "bimap_inv T this s lt rt" and a: "a \<in> set (inorder lt)"
  shows "\<exists>s'. erase side this \<lparr>it = Some (Elt side a), map_p = this\<rparr> s =
           Some (\<lparr>it = Some (succ_of side (if side = left_tag then lt else rt) a
                               (Root side this)), map_p = this\<rparr>, s') \<and>
         bimap_inv T this s' (shape_remove a lt) (shape_remove a rt) \<and>
         lr s' = lr s \<and> size' s' this = size' s this - 1"
proof -
  let ?t = "if side = left_tag then lt else rt"
  let ?s1 = "s\<lparr>size' := (size' s)(this := size' s this - 1)\<rparr>"
  from assms(1) have sets: "set (inorder lt) = set (inorder rt)" by (simp add: bimap_inv_def)
  have it: "tree_inv side (cells s) this ?t" by (rule bimap_inv_side [OF assms(1)])
  have at: "a \<in> set (inorder ?t)" using a sets by simp
  have nxt: "next_elt (cells s) (Elt side a) = Some (succ_of side ?t a (Root side this))"
    by (rule next_elt_tree [OF it at])
  have inv1: "bimap_inv T this ?s1 lt rt" using assms(1) by simp
  from delete_node_shape [OF inv1 a]
  obtain s' where del: "delete_node a ?s1 = Some s'"
    and inv': "bimap_inv T this s' (shape_remove a lt) (shape_remove a rt)"
    and l': "lr s' = lr s" and z': "size' s' = size' ?s1"
    by auto
  have "erase side this \<lparr>it = Some (Elt side a), map_p = this\<rparr> s =
      Some (\<lparr>it = Some (succ_of side ?t a (Root side this)), map_p = this\<rparr>, s')"
    using nxt del
    by (simp add: erase_def iter_eq_def bimap_end_def tree_end_def node_of_def iter_inc_def Let_def)
  then show ?thesis using inv' l' z' by simp
qed

text \<open>
  Claim C7. In a map that satisfies the invariant, \<^verbatim>\<open>erase_left(it)\<close> (\<^verbatim>\<open>erase_right(it)\<close>)
  at the position of a resident entry returns the position that follows it in the
  traversal of that side (the end after the last entry); in the new store the invariant
  holds with the entry removed from the left and from the right tree, both traversals
  visit the remaining entries in their old order, the pairs are unchanged and \<^verbatim>\<open>size_\<close>
  is decremented by one. At the end position it returns the end position and the store
  as it is.
\<close>

theorem erase_iterator_removes_entry:
  assumes "bimap_inv T this s lt rt"
  shows "(a \<in> set (inorder lt) \<longrightarrow>
           (\<exists>s'. erase side this \<lparr>it = Some (Elt side a), map_p = this\<rparr> s =
                   Some (\<lparr>it = Some (succ_of side (if side = left_tag then lt else rt) a
                                       (Root side this)), map_p = this\<rparr>, s') \<and>
                 bimap_inv T this s' (shape_remove a lt) (shape_remove a rt) \<and>
                 inorder (shape_remove a lt) = remove1 a (inorder lt) \<and>
                 inorder (shape_remove a rt) = remove1 a (inorder rt) \<and>
                 traverse (cells s') (Root left_tag this) =
                   Some (map (Elt left_tag) (remove1 a (inorder lt))) \<and>
                 traverse (cells s') (Root right_tag this) =
                   Some (map (Elt right_tag) (remove1 a (inorder rt))) \<and>
                 lr s' = lr s \<and> size' s' this = size' s this - 1)) \<and>
         (\<forall>xs ys. inorder (if side = left_tag then lt else rt) = xs @ a # ys \<longrightarrow>
            succ_of side (if side = left_tag then lt else rt) a (Root side this) =
              (case ys of [] \<Rightarrow> Root side this | y # zs \<Rightarrow> Elt side y)) \<and>
         traverse (cells s) (Root left_tag this) = Some (map (Elt left_tag) (inorder lt)) \<and>
         traverse (cells s) (Root right_tag this) = Some (map (Elt right_tag) (inorder rt)) \<and>
         erase side this (bimap_end side this) s = Some (bimap_end side this, s)"
proof (intro conjI impI allI)
  let ?t = "if side = left_tag then lt else rt"
  from assms have iL: "tree_inv left_tag (cells s) this lt" and iR: "tree_inv right_tag (cells s) this rt"
    by (simp_all add: bimap_inv_def)
  from iL iR have dL: "distinct (inorder lt)" and dR: "distinct (inorder rt)"
    by (simp_all add: tree_inv_def)
  show "traverse (cells s) (Root left_tag this) = Some (map (Elt left_tag) (inorder lt))"
    by (rule traverse_tree [OF iL])
  show "traverse (cells s) (Root right_tag this) = Some (map (Elt right_tag) (inorder rt))"
    by (rule traverse_tree [OF iR])
  show "erase side this (bimap_end side this) s = Some (bimap_end side this, s)"
    by (simp add: erase_def iter_eq_def)
  {
    fix xs ys assume "inorder ?t = xs @ a # ys"
    moreover have "distinct (inorder ?t)" using dL dR by simp
    ultimately show "succ_of side ?t a (Root side this) =
        (case ys of [] \<Rightarrow> Root side this | y # zs \<Rightarrow> Elt side y)"
      using succ_of_inorder [of ?t xs a ys side "Root side this"] by simp
  }
  assume a: "a \<in> set (inorder lt)"
  from erase_resident [OF assms a, of side]
  obtain s' where run: "erase side this \<lparr>it = Some (Elt side a), map_p = this\<rparr> s =
      Some (\<lparr>it = Some (succ_of side ?t a (Root side this)), map_p = this\<rparr>, s')"
    and inv': "bimap_inv T this s' (shape_remove a lt) (shape_remove a rt)"
    and l': "lr s' = lr s" and z': "size' s' this = size' s this - 1"
    by blast
  from inv' have iL': "tree_inv left_tag (cells s') this (shape_remove a lt)"
    and iR': "tree_inv right_tag (cells s') this (shape_remove a rt)"
    by (simp_all add: bimap_inv_def)
  have tL: "traverse (cells s') (Root left_tag this) = Some (map (Elt left_tag) (remove1 a (inorder lt)))"
    using traverse_tree [OF iL'] dL by (simp add: inorder_shape_remove)
  have tR: "traverse (cells s') (Root right_tag this) = Some (map (Elt right_tag) (remove1 a (inorder rt)))"
    using traverse_tree [OF iR'] dR by (simp add: inorder_shape_remove)
  show "\<exists>s'. erase side this \<lparr>it = Some (Elt side a), map_p = this\<rparr> s =
                   Some (\<lparr>it = Some (succ_of side ?t a (Root side this)), map_p = this\<rparr>, s') \<and>
                 bimap_inv T this s' (shape_remove a lt) (shape_remove a rt) \<and>
                 inorder (shape_remove a lt) = remove1 a (inorder lt) \<and>
                 inorder (shape_remove a rt) = remove1 a (inorder rt) \<and>
                 traverse (cells s') (Root left_tag this) =
                   Some (map (Elt left_tag) (remove1 a (inorder lt))) \<and>
                 traverse (cells s') (Root right_tag this) =
                   Some (map (Elt right_tag) (remove1 a (inorder rt))) \<and>
                 lr s' = lr s \<and> size' s' this = size' s this - 1"
    using run inv' tL tR l' z' dL dR by (auto simp: inorder_shape_remove)
qed

theorem erase_iterator_removes_entry_witness:
  "bimap_inv int_bimap 0 two_entries (Fork Tip 0 (Fork Tip 1 Tip)) (Fork (Fork Tip 1 Tip) 0 Tip) \<and>
   0 \<in> set (inorder (Fork Tip 0 (Fork Tip 1 Tip))) \<and>
   inorder (Fork Tip 0 (Fork Tip 1 Tip)) = [] @ 0 # [1] \<and>
   (\<exists>s'. erase left_tag 0 \<lparr>it = Some (Elt left_tag 0), map_p = 0\<rparr> two_entries =
            Some (\<lparr>it = Some (Elt left_tag 1), map_p = 0\<rparr>, s') \<and>
          traverse (cells s') (Root left_tag 0) = Some [Elt left_tag 1] \<and>
          traverse (cells s') (Root right_tag 0) = Some [Elt right_tag 1] \<and>
          size' s' 0 = 1) \<and>
   (\<exists>s'. erase right_tag 0 \<lparr>it = Some (Elt right_tag 0), map_p = 0\<rparr> two_entries =
            Some (bimap_end right_tag 0, s')) \<and>
   erase left_tag 0 (bimap_end left_tag 0) two_entries = Some (bimap_end left_tag 0, two_entries)"
proof -
  have l: "size' two_entries 0 = 2" by code_simp
  from erase_iterator_removes_entry [OF two_entries_inv, of 0 left_tag]
       erase_iterator_removes_entry [OF two_entries_inv, of 0 right_tag]
  show ?thesis using two_entries_inv l by (auto simp: bimap_end_def tree_end_def)
qed

subsection \<open>The invariant along insertions and erasures\<close>

lemma insert_preserves_inv:
  assumes inv: "bimap_inv T this s lt rt"
  shows "\<exists>i s' lt' rt'. insert' T this l r s = Some (i, s') \<and> bimap_inv T this s' lt' rt'"
proof (cases "\<exists>x\<in>set (inorder lt). key_equiv (CompareLeft T) (fst (lr s x)) l")
  case True
  then obtain x where "x \<in> set (inorder lt)" "key_equiv (CompareLeft T) (fst (lr s x)) l" by blast
  from find_left_present [OF inv this]
  have "insert' T this l r s = Some (end_left this, s)"
    by (simp add: insert'_def iter_eq_def end_left_def bimap_end_def tree_end_def)
  then show ?thesis using inv by blast
next
  case nl: False
  then have fl: "find_left T this l s = Some (bimap_end left_tag this)"
    using find_left_absent [OF inv] by blast
  show ?thesis
  proof (cases "\<exists>x\<in>set (inorder rt). key_equiv (CompareRight T) (snd (lr s x)) r")
    case True
    then obtain x where "x \<in> set (inorder rt)" "key_equiv (CompareRight T) (snd (lr s x)) r" by blast
    from find_right_present [OF inv this] fl
    have "insert' T this l r s = Some (end_left this, s)"
      by (simp add: insert'_def iter_eq_def end_left_def end_right_def bimap_end_def tree_end_def)
    then show ?thesis using inv by blast
  next
    case nr: False
    then have fr: "find_right T this r s = Some (bimap_end right_tag this)"
      using find_right_absent [OF inv] by blast
    have "insert' T this l r s = insert_no_check T this l r s"
      using fl fr by (simp add: insert'_def iter_eq_def end_left_def end_right_def)
    moreover from insert_no_check_new_entry [OF inv, of l r] nl nr
    obtain s' lt' rt' where
      "insert_no_check T this l r s = Some (\<lparr>it = Some (Elt left_tag (heap_top s)), map_p = this\<rparr>, s')"
      "bimap_inv T this s' lt' rt'"
      by auto
    ultimately show ?thesis by auto
  qed
qed

lemma erase_left_key_preserves_inv:
  assumes inv: "bimap_inv T this s lt rt"
  shows "\<exists>b s' lt' rt'. erase_left_key T this k s = Some (b, s') \<and> bimap_inv T this s' lt' rt'"
proof (cases "\<exists>x\<in>set (inorder lt). key_equiv (CompareLeft T) (fst (lr s x)) k")
  case True
  then obtain x where x: "x \<in> set (inorder lt)" "key_equiv (CompareLeft T) (fst (lr s x)) k" by blast
  from erase_resident [OF inv x(1), of left_tag]
  obtain i s' where "erase left_tag this \<lparr>it = Some (Elt left_tag x), map_p = this\<rparr> s = Some (i, s')"
    "bimap_inv T this s' (shape_remove x lt) (shape_remove x rt)"
    by blast
  then show ?thesis using find_left_present [OF inv x] by (auto simp: erase_left_key_def)
next
  case False
  then have "find_left T this k s = Some (bimap_end left_tag this)"
    using find_left_absent [OF inv] by blast
  then show ?thesis using inv by (auto simp: erase_left_key_def erase_def iter_eq_def)
qed

lemma erase_right_key_preserves_inv:
  assumes inv: "bimap_inv T this s lt rt"
  shows "\<exists>b s' lt' rt'. erase_right_key T this k s = Some (b, s') \<and> bimap_inv T this s' lt' rt'"
proof (cases "\<exists>x\<in>set (inorder rt). key_equiv (CompareRight T) (snd (lr s x)) k")
  case True
  then obtain x where x: "x \<in> set (inorder rt)" "key_equiv (CompareRight T) (snd (lr s x)) k" by blast
  from inv x(1) have xl: "x \<in> set (inorder lt)" by (simp add: bimap_inv_def)
  from erase_resident [OF inv xl, of right_tag]
  obtain i s' where "erase right_tag this \<lparr>it = Some (Elt right_tag x), map_p = this\<rparr> s = Some (i, s')"
    "bimap_inv T this s' (shape_remove x lt) (shape_remove x rt)"
    by blast
  then show ?thesis using find_right_present [OF inv x] by (auto simp: erase_right_key_def)
next
  case False
  then have "find_right T this k s = Some (bimap_end right_tag this)"
    using find_right_absent [OF inv] by blast
  then show ?thesis using inv by (auto simp: erase_right_key_def erase_def iter_eq_def)
qed

lemma do_call_preserves_inv:
  assumes "bimap_inv T this s lt rt"
  shows "\<exists>s' lt' rt'. do_call T this c s = Some s' \<and> bimap_inv T this s' lt' rt'"
proof (cases c)
  case (Insert l r)
  then show ?thesis using insert_preserves_inv [OF assms, of l r] by auto
next
  case (Erase_left k)
  then show ?thesis using erase_left_key_preserves_inv [OF assms, of k] by auto
next
  case (Erase_right k)
  then show ?thesis using erase_right_key_preserves_inv [OF assms, of k] by auto
qed

lemma do_calls_preserve_inv:
  "bimap_inv T this s lt rt \<Longrightarrow>
   \<exists>s' lt' rt'. do_calls T this cs s = Some s' \<and> bimap_inv T this s' lt' rt'"
proof (induction cs arbitrary: s lt rt)
  case Nil
  then show ?case by auto
next
  case (Cons c cs)
  from do_call_preserves_inv [OF Cons.prems, of c]
  obtain s1 lt1 rt1 where c: "do_call T this c s = Some s1" and i: "bimap_inv T this s1 lt1 rt1"
    by blast
  from Cons.IH [OF i] c show ?case by simp
qed

lemma constructed_then_calls_inv:
  assumes "strict_weak_order (CompareLeft T)" "strict_weak_order (CompareRight T)"
  shows "\<exists>s' lt rt. do_calls T this cs (bimap_construct this s) = Some s' \<and> bimap_inv T this s' lt rt"
  using do_calls_preserve_inv [OF bimap_inv_construct [OF assms]] .

end
